theory Spec2Isabelle
  imports Main "HOL-Library.Monad_Syntax"
begin

section \<open>Data model\<close>

text \<open>
  A JavaScript string is a sequence of UTF-16 code units; \<open>s.length\<close> counts them and
  \<open>s.charCodeAt(i)\<close> reads one. Code units are modelled as natural numbers (below 65536).

  JavaScript numbers are doubles. Every number the coder computes from an alphabet of 2 to 256
  symbols and bytes in \<open>[0, 255]\<close> is an integer below \<open>2^49\<close>: the interval bounds stay below
  \<open>msdDivisor * base \<le> 2^40\<close>, and the largest products are \<open>(hi - lo + 1) * (byte + 1)\<close>
  and \<open>256 * (digitsToDecode - lo)\<close>. Sums, differences and products of such integers are
  exact in a double, the factor \<open>1 / 256\<close> is a power of two, and the one rounded quotient
  (\<open>256 * (digitsToDecode - lo) / (hi - lo + 1)\<close>) is never rounded across an integer, so
  \<open>Math.floor\<close> and \<open>Math.ceil\<close> return the exact integer floor and ceiling. The model
  therefore computes on \<open>int\<close>.
\<close>

type_synonym jsstring = "nat list"

datatype error = Error string | TypeError

definition DEFAULT_ALPHABET :: jsstring where
  "DEFAULT_ALPHABET =
     map of_char (''0123456789abcdefghijklmnopqrstuvwxyzABCDEFGHIJKLMNOPQRSTUVWXYZ''
                  @ ''!@#$%^*()-=;,./_+{}|:?~'')"

definition MIN_ALPHABET_SIZE :: nat where
  "MIN_ALPHABET_SIZE = 2"

definition MAX_ALPHABET_SIZE :: nat where
  "MAX_ALPHABET_SIZE = 256"

text \<open>The remainder operator \<open>%\<close> of JavaScript truncates: its sign is the dividend's.\<close>

definition js_rem :: "int \<Rightarrow> int \<Rightarrow> int" where
  "js_rem a b = sgn a * (\<bar>a\<bar> mod \<bar>b\<bar>)"

text \<open>\<open>Math.ceil(x * (1 / 256))\<close> for an integer \<open>x\<close>.\<close>

definition ceil256 :: "int \<Rightarrow> int" where
  "ceil256 x = - ((- x) div 256)"

subsection \<open>The Map of the decoder\<close>

text \<open>
  A JavaScript \<open>Map\<close> keeps its keys in insertion order; \<open>set\<close> on a key that is present
  replaces the value in place. \<open>get\<close> returns \<open>undefined\<close> (here \<open>None\<close>) for a missing key,
  and \<open>has\<close> is true exactly when \<open>get\<close> finds a value, since no value stored here is
  \<open>undefined\<close>.
\<close>

type_synonym jsmap = "(nat \<times> nat) list"

fun Map_set :: "jsmap \<Rightarrow> nat \<Rightarrow> nat \<Rightarrow> jsmap" where
  "Map_set [] k v = [(k, v)]"
| "Map_set ((k', v') # m) k v = (if k' = k then (k, v) # m else (k', v') # Map_set m k v)"

fun Map_get :: "jsmap \<Rightarrow> nat \<Rightarrow> nat option" where
  "Map_get [] k = None"
| "Map_get ((k', v') # m) k = (if k' = k then Some v' else Map_get m k)"

definition Map_has :: "jsmap \<Rightarrow> nat \<Rightarrow> bool" where
  "Map_has m k = (Map_get m k \<noteq> None)"

definition Map_size :: "jsmap \<Rightarrow> nat" where
  "Map_size m = length m"

subsection \<open>StringBuilder\<close>

record StringBuilder =
  chunks :: "jsstring list"
  currChunk :: "jsstring list"
  currChunkLength :: nat

definition new_StringBuilder :: StringBuilder where
  "new_StringBuilder = \<lparr>chunks = [], currChunk = [], currChunkLength = 0\<rparr>"

text \<open>
  \<open>add\<close> receives \<open>encodingTable[k]\<close>, which is \<open>undefined\<close> (here \<open>None\<close>) when \<open>k\<close> is not
  an index of the table; reading \<open>string.length\<close> of \<open>undefined\<close> throws a TypeError.
\<close>

definition add :: "StringBuilder \<Rightarrow> jsstring option \<Rightarrow> error + StringBuilder" where
  "add sb string =
     (let sb1 = (if currChunkLength sb \<ge> 1024
                 then sb\<lparr>chunks := chunks sb @ [concat (currChunk sb)],
                         currChunk := [], currChunkLength := 0\<rparr>
                 else sb)
      in case string of
           None \<Rightarrow> Inl TypeError
         | Some s \<Rightarrow> Inr (sb1\<lparr>currChunk := currChunk sb1 @ [s],
                                currChunkLength := currChunkLength sb1 + length s\<rparr>))"

definition toString :: "StringBuilder \<Rightarrow> jsstring" where
  "toString sb = concat (chunks sb @ currChunk sb)"

text \<open>\<open>for (; digitsToAdd > 0; --digitsToAdd) result.add(charToAdd)\<close>\<close>

fun add_loop :: "nat \<Rightarrow> jsstring option \<Rightarrow> StringBuilder \<Rightarrow> error + StringBuilder" where
  "add_loop 0 charToAdd sb = Inr sb"
| "add_loop (Suc n) charToAdd sb =
     (case add sb charToAdd of Inl e \<Rightarrow> Inl e | Inr sb' \<Rightarrow> add_loop n charToAdd sb')"

text \<open>\<open>table[k]\<close> on a string: the one-unit string at index \<open>k\<close>, or \<open>undefined\<close>.\<close>

definition at_index :: "jsstring \<Rightarrow> int \<Rightarrow> jsstring option" where
  "at_index s k = (if 0 \<le> k \<and> k < int (length s) then Some [s ! nat k] else None)"

section \<open>calculateParams\<close>

text \<open>
  Both loops of \<open>calculateParams\<close> multiply by \<open>base\<close> until a bound is passed; with
  \<open>base \<le> 1\<close> they never end, so they are partial functions and \<open>None\<close> is divergence.
\<close>

partial_function (option) msdDivisor_loop :: "int \<Rightarrow> int \<Rightarrow> nat \<Rightarrow> (int \<times> nat) option" where
  "msdDivisor_loop base msdDivisor maxDigitsToDecode =
     (if msdDivisor \<le> 0x10000000000
      then msdDivisor_loop base (msdDivisor * base) (maxDigitsToDecode + 1)
      else Some (msdDivisor, maxDigitsToDecode))"

declare msdDivisor_loop.simps [code]

partial_function (option) maxDigitsToEmit_loop :: "int \<Rightarrow> int \<Rightarrow> nat \<Rightarrow> (int \<times> nat) option" where
  "maxDigitsToEmit_loop base tmp maxDigitsToEmit =
     (if tmp < 0x100
      then maxDigitsToEmit_loop base (tmp * base) (maxDigitsToEmit + 1)
      else Some (tmp, maxDigitsToEmit))"

declare maxDigitsToEmit_loop.simps [code]

definition calculateParams :: "int \<Rightarrow> (int \<times> int \<times> nat \<times> nat) option" where
  "calculateParams base =
     (case msdDivisor_loop base 1 0 of
        None \<Rightarrow> None
      | Some (m, d) \<Rightarrow>
          (let msdDivisor = m div (base * base);
               secondMsdDivisor = msdDivisor div base;
               maxDigitsToDecode = d - 1
           in case maxDigitsToEmit_loop base 1 1 of
                None \<Rightarrow> None
              | Some (tmp, maxDigitsToEmit) \<Rightarrow>
                  Some (msdDivisor, secondMsdDivisor, maxDigitsToEmit, maxDigitsToDecode)))"

section \<open>Encoder\<close>

record Encoder =
  encodingTable :: jsstring

definition new_Encoder :: "jsstring \<Rightarrow> error + Encoder" where
  "new_Encoder alphabet =
     (if length alphabet < MIN_ALPHABET_SIZE
      then Inl (Error ''alphabet must have at least 2 characters'')
      else if length alphabet > MAX_ALPHABET_SIZE
      then Inl (Error ''alphabet must not contain more than 256 characters'')
      else Inr \<lparr>encodingTable = alphabet\<rparr>)"

record interval =
  lo :: int
  hi :: int

text \<open>The interval narrowing by one byte; \<open>encode\<close> and \<open>decode\<close> contain the same four
  statements (\<open>nextLo\<close>, \<open>nextHi\<close>, \<open>lo = nextLo\<close>, \<open>hi = nextHi\<close>).\<close>

definition narrow :: "'a interval_scheme \<Rightarrow> int \<Rightarrow> 'a interval_scheme" where
  "narrow st byte =
     (let nextLo = lo st + ceil256 ((hi st - lo st + 1) * byte);
          nextHi = lo st + (ceil256 ((hi st - lo st + 1) * (byte + 1)) - 1)
      in st\<lparr>lo := nextLo, hi := nextHi\<rparr>)"

record enc_state = interval +
  result :: StringBuilder
  bytesEncoded :: nat
  digitsToAdd :: nat
  digitsToAddHiMsd :: int

text \<open>The digit loop \<open>for (let _ = maxDigitsToEmit; _--;)\<close> of \<open>encode\<close>; the first
  argument is the number of iterations left.\<close>

primrec enc_digits :: "nat \<Rightarrow> jsstring \<Rightarrow> int \<Rightarrow> int \<Rightarrow> enc_state \<Rightarrow> error + enc_state" where
  "enc_digits 0 tab msdDivisor secondMsdDivisor st = Inr st"
| "enc_digits (Suc n) tab msdDivisor secondMsdDivisor st =
     (let base = int (length tab);
          loMsd = lo st div msdDivisor;
          hiMsd = hi st div msdDivisor
      in if hiMsd - loMsd = 1 then
           (if js_rem (lo st div secondMsdDivisor) base = base - 1
               \<and> js_rem (hi st div secondMsdDivisor) base = 0
            then enc_digits n tab msdDivisor secondMsdDivisor
                   (st\<lparr>lo := loMsd * msdDivisor + js_rem (lo st) secondMsdDivisor * base,
                       hi := hiMsd * msdDivisor + js_rem (hi st) secondMsdDivisor * base,
                       digitsToAdd := digitsToAdd st + 1,
                       digitsToAddHiMsd := hiMsd\<rparr>)
            else Inr st)
         else if loMsd = hiMsd then
           (case add (result st) (at_index tab hiMsd) of
              Inl e \<Rightarrow> Inl e
            | Inr r1 \<Rightarrow>
                (case (if digitsToAdd st > 0
                       then add_loop (digitsToAdd st)
                              (at_index tab (if hiMsd = digitsToAddHiMsd st then 0 else base - 1)) r1
                       else Inr r1) of
                   Inl e \<Rightarrow> Inl e
                 | Inr r2 \<Rightarrow>
                     enc_digits n tab msdDivisor secondMsdDivisor
                       (st\<lparr>lo := js_rem (lo st) msdDivisor * base,
                           hi := js_rem (hi st) msdDivisor * base,
                           result := r2,
                           digitsToAdd := 0\<rparr>)))
         else Inr st)"

text \<open>One iteration of \<open>for (const byte of bytes)\<close>.\<close>

definition enc_byte :: "jsstring \<Rightarrow> int \<Rightarrow> int \<Rightarrow> nat \<Rightarrow> enc_state \<Rightarrow> int \<Rightarrow> error + enc_state" where
  "enc_byte tab msdDivisor secondMsdDivisor maxDigitsToEmit st byte =
     (case enc_digits maxDigitsToEmit tab msdDivisor secondMsdDivisor (narrow st byte) of
        Inl e \<Rightarrow> Inl e
      | Inr st' \<Rightarrow> Inr (st'\<lparr>bytesEncoded := bytesEncoded st' + 1\<rparr>))"

fun enc_bytes :: "jsstring \<Rightarrow> int \<Rightarrow> int \<Rightarrow> nat \<Rightarrow> int list \<Rightarrow> enc_state \<Rightarrow> error + enc_state" where
  "enc_bytes tab msdDivisor secondMsdDivisor maxDigitsToEmit [] st = Inr st"
| "enc_bytes tab msdDivisor secondMsdDivisor maxDigitsToEmit (byte # bytes) st =
     (case enc_byte tab msdDivisor secondMsdDivisor maxDigitsToEmit st byte of
        Inl e \<Rightarrow> Inl e
      | Inr st' \<Rightarrow> enc_bytes tab msdDivisor secondMsdDivisor maxDigitsToEmit bytes st')"

definition enc_init :: "int \<Rightarrow> int \<Rightarrow> enc_state" where
  "enc_init msdDivisor base =
     \<lparr>lo = 0, hi = msdDivisor * base - 1, result = new_StringBuilder,
      bytesEncoded = 0, digitsToAdd = 0, digitsToAddHiMsd = 0\<rparr>"

text \<open>The statements of \<open>encode\<close> after the byte loop.\<close>

definition enc_finish :: "jsstring \<Rightarrow> int \<Rightarrow> enc_state \<Rightarrow> error + jsstring" where
  "enc_finish tab msdDivisor st =
     (case add (result st) (at_index tab (hi st div msdDivisor)) of
        Inl e \<Rightarrow> Inl e
      | Inr r1 \<Rightarrow>
          (case (if digitsToAdd st > 0
                 then add_loop (digitsToAdd st) (at_index tab 0) r1
                 else Inr r1) of
             Inl e \<Rightarrow> Inl e
           | Inr r2 \<Rightarrow>
               (case add r2 (at_index tab (int (bytesEncoded st mod 2))) of
                  Inl e \<Rightarrow> Inl e
                | Inr r3 \<Rightarrow> Inr (toString r3))))"

text \<open>\<open>Encoder.encode\<close>: \<open>None\<close> when \<open>calculateParams\<close> does not return, \<open>Inl\<close> for a
  thrown error, \<open>Inr\<close> the encoded text.\<close>

definition encode :: "Encoder \<Rightarrow> int list \<Rightarrow> (error + jsstring) option" where
  "encode enc bytes =
     (let tab = encodingTable enc; base = int (length tab)
      in case calculateParams base of
           None \<Rightarrow> None
         | Some (msdDivisor, secondMsdDivisor, maxDigitsToEmit, maxDigitsToDecode) \<Rightarrow>
             Some (case enc_bytes tab msdDivisor secondMsdDivisor maxDigitsToEmit bytes
                          (enc_init msdDivisor base) of
                     Inl e \<Rightarrow> Inl e
                   | Inr st \<Rightarrow> enc_finish tab msdDivisor st))"

section \<open>Decoder\<close>

record Decoder =
  decodingTable :: jsmap

text \<open>\<open>for (let i = alphabet.length; i--;) this.decodingTable.set(alphabet.charCodeAt(i), i)\<close>:
  the second argument is the value of \<open>i\<close> before the test.\<close>

fun decodingTable_loop :: "jsstring \<Rightarrow> nat \<Rightarrow> jsmap \<Rightarrow> jsmap" where
  "decodingTable_loop alphabet 0 t = t"
| "decodingTable_loop alphabet (Suc n) t =
     decodingTable_loop alphabet n (Map_set t (alphabet ! n) n)"

definition new_Decoder :: "jsstring \<Rightarrow> error + Decoder" where
  "new_Decoder alphabet =
     (if length alphabet < MIN_ALPHABET_SIZE
      then Inl (Error ''alphabet must have at least 2 characters'')
      else if length alphabet > MAX_ALPHABET_SIZE
      then Inl (Error ''alphabet must not contain more than 256 characters'')
      else Inr \<lparr>decodingTable = decodingTable_loop alphabet (length alphabet) []\<rparr>)"

text \<open>\<open>isWhitespace(ch)\<close> tests whether the string of the nine whitespace characters
  (space, \<open>\n\<close>, \<open>\r\<close>, \<open>\t\<close>, \<open>\v\<close>, \<open>\f\<close>, U+00A0, U+2028, U+2029) \<open>includes\<close> \<open>ch\<close>;
  \<open>ch\<close> is the one-unit string \<open>encodedText[i]\<close>, for which \<open>includes\<close> is membership.\<close>

definition isWhitespace :: "nat \<Rightarrow> bool" where
  "isWhitespace ch = (ch \<in> set [0x20, 0x0A, 0x0D, 0x09, 0x0B, 0x0C, 0xA0, 0x2028, 0x2029])"

datatype outcome = Returned | Thrown error

record dec_state = interval +
  bytesDecoded :: nat
  pos :: nat
  digitsToDecode :: int
  requestedDigits :: nat
  requestedDigitsKeepMsd :: nat
  isLastDigit :: bool
  yielded :: "int list"

text \<open>
  The state of the generator \<open>decode\<close>; \<open>pos\<close> is the variable \<open>i\<close> of the source and
  \<open>yielded\<close> collects the values of the \<open>yield\<close> statements executed so far.

  The lines of the inner loop after a digit has been chosen (\<open>++i\<close> to \<open>--requestedDigits\<close>):
\<close>

definition take_digit :: "int \<Rightarrow> int \<Rightarrow> int \<Rightarrow> dec_state \<Rightarrow> int \<Rightarrow> dec_state" where
  "take_digit base msdDivisor secondMsdDivisor st digit =
     (if requestedDigits st = requestedDigitsKeepMsd st
      then (let digitsToDecodeMsd = digitsToDecode st div msdDivisor
            in st\<lparr>pos := pos st + 1,
                   digitsToDecode := digitsToDecodeMsd * msdDivisor
                      + js_rem (digitsToDecode st) secondMsdDivisor * base + digit,
                   requestedDigitsKeepMsd := requestedDigitsKeepMsd st - 1,
                   requestedDigits := requestedDigits st - 1\<rparr>)
      else st\<lparr>pos := pos st + 1,
              digitsToDecode := js_rem (digitsToDecode st) msdDivisor * base + digit,
              requestedDigits := requestedDigits st - 1\<rparr>)"

text \<open>The inner loop \<open>while (requestedDigits > 0)\<close>. The \<open>continue\<close> on a whitespace
  character re-enters the loop with the state unchanged.\<close>

partial_function (option) read_digits ::
  "jsstring \<Rightarrow> jsmap \<Rightarrow> int \<Rightarrow> int \<Rightarrow> int \<Rightarrow> int \<Rightarrow> nat \<Rightarrow> dec_state \<Rightarrow> (error + dec_state) option" where
  "read_digits encodedText table endIndex base msdDivisor secondMsdDivisor maxDigitsToDecode st =
     (if requestedDigits st > 0 then
        (if int (pos st) < endIndex then
           (let charCode = encodedText ! pos st
            in case Map_get table charCode of
                 None \<Rightarrow>
                   (if isWhitespace (encodedText ! pos st)
                    then read_digits encodedText table endIndex base msdDivisor secondMsdDivisor
                           maxDigitsToDecode st
                    else Some (Inl (Error ''invalid input string'')))
               | Some digit \<Rightarrow>
                   read_digits encodedText table endIndex base msdDivisor secondMsdDivisor
                     maxDigitsToDecode
                     (take_digit base msdDivisor secondMsdDivisor st (int digit)))
         else
           read_digits encodedText table endIndex base msdDivisor secondMsdDivisor
             maxDigitsToDecode
             (take_digit base msdDivisor secondMsdDivisor
                (if int (pos st) - endIndex = int maxDigitsToDecode - 2
                 then st\<lparr>isLastDigit := True\<rparr> else st) 0))
      else Some (Inr st))"

declare read_digits.simps [code]

text \<open>The digit loop \<open>for (let _ = maxDigitsToEmit; _--;)\<close> of \<open>decode\<close>.\<close>

primrec dec_digits :: "nat \<Rightarrow> int \<Rightarrow> int \<Rightarrow> int \<Rightarrow> dec_state \<Rightarrow> dec_state" where
  "dec_digits 0 base msdDivisor secondMsdDivisor st = st"
| "dec_digits (Suc n) base msdDivisor secondMsdDivisor st =
     (let loMsd = lo st div msdDivisor;
          hiMsd = hi st div msdDivisor
      in if hiMsd - loMsd = 1 then
           (if js_rem (lo st div secondMsdDivisor) base = base - 1
               \<and> js_rem (hi st div secondMsdDivisor) base = 0
            then dec_digits n base msdDivisor secondMsdDivisor
                   (st\<lparr>lo := loMsd * msdDivisor + js_rem (lo st) secondMsdDivisor * base,
                       hi := hiMsd * msdDivisor + js_rem (hi st) secondMsdDivisor * base,
                       requestedDigits := requestedDigits st + 1,
                       requestedDigitsKeepMsd := requestedDigitsKeepMsd st + 1\<rparr>)
            else st)
         else if loMsd = hiMsd then
           dec_digits n base msdDivisor secondMsdDivisor
             (st\<lparr>lo := js_rem (lo st) msdDivisor * base,
                 hi := js_rem (hi st) msdDivisor * base,
                 requestedDigits := requestedDigits st + 1\<rparr>)
         else st)"

text \<open>The statements of the outer loop from \<open>yield byte\<close> to \<open>++bytesDecoded\<close>.\<close>

definition dec_byte :: "int \<Rightarrow> int \<Rightarrow> int \<Rightarrow> nat \<Rightarrow> dec_state \<Rightarrow> int \<Rightarrow> dec_state" where
  "dec_byte base msdDivisor secondMsdDivisor maxDigitsToEmit st byte =
     (let st' = dec_digits maxDigitsToEmit base msdDivisor secondMsdDivisor
                  (narrow (st\<lparr>yielded := yielded st @ [byte]\<rparr>) byte)
      in st'\<lparr>bytesDecoded := bytesDecoded st' + 1\<rparr>)"

text \<open>The outer loop \<open>while (true)\<close>. The result is the list of yielded values with the way
  the generator ended; \<open>None\<close> when it never ends.\<close>

partial_function (option) dec_loop ::
  "jsstring \<Rightarrow> jsmap \<Rightarrow> int \<Rightarrow> nat \<Rightarrow> int \<Rightarrow> (int \<times> int \<times> nat \<times> nat) \<Rightarrow> dec_state
     \<Rightarrow> (int list \<times> outcome) option" where
  "dec_loop encodedText table endIndex lengthParity base params st =
     (case params of (msdDivisor, secondMsdDivisor, maxDigitsToEmit, maxDigitsToDecode) \<Rightarrow>
        (case read_digits encodedText table endIndex base msdDivisor secondMsdDivisor
                maxDigitsToDecode st of
           None \<Rightarrow> None
         | Some (Inl e) \<Rightarrow> Some (yielded st, Thrown e)
         | Some (Inr st1) \<Rightarrow>
             (let byte = (256 * (digitsToDecode st1 - lo st1)) div (hi st1 - lo st1 + 1)
              in if isLastDigit st1 then
                   (if bytesDecoded st1 mod 2 \<noteq> lengthParity
                    then Some (yielded st1 @ [byte], Returned)
                    else Some (yielded st1, Returned))
                 else dec_loop encodedText table endIndex lengthParity base params
                        (dec_byte base msdDivisor secondMsdDivisor maxDigitsToEmit st1 byte))))"

declare dec_loop.simps [code]

definition dec_init :: "int \<Rightarrow> int \<Rightarrow> nat \<Rightarrow> dec_state" where
  "dec_init msdDivisor base maxDigitsToDecode =
     \<lparr>lo = 0, hi = msdDivisor * base - 1, bytesDecoded = 0, pos = 0, digitsToDecode = 0,
      requestedDigits = maxDigitsToDecode, requestedDigitsKeepMsd = 0, isLastDigit = False,
      yielded = []\<rparr>"

text \<open>The generator function \<open>decode(encodedText, decodingTable)\<close>, run to its end.\<close>

definition decode :: "jsstring \<Rightarrow> jsmap \<Rightarrow> (int list \<times> outcome) option" where
  "decode encodedText table =
     (let endIndex = int (length encodedText) - 1
      in if endIndex < 0 \<or> \<not> Map_has table (encodedText ! nat endIndex)
         then Some ([], Thrown (Error ''invalid input string''))
         else (case Map_get table (encodedText ! nat endIndex) of
                 None \<Rightarrow> Some ([], Thrown (Error ''invalid input string''))
               | Some lengthParity \<Rightarrow>
                   if lengthParity > 1
                   then Some ([], Thrown (Error ''invalid input string''))
                   else (let base = int (Map_size table)
                         in case calculateParams base of
                              None \<Rightarrow> None
                            | Some (msdDivisor, secondMsdDivisor, maxDigitsToEmit, maxDigitsToDecode) \<Rightarrow>
                                dec_loop encodedText table endIndex lengthParity base
                                  (msdDivisor, secondMsdDivisor, maxDigitsToEmit, maxDigitsToDecode)
                                  (dec_init msdDivisor base maxDigitsToDecode))))"

text \<open>\<open>Decoder.decode\<close>\<close>

definition Decoder_decode :: "Decoder \<Rightarrow> jsstring \<Rightarrow> (int list \<times> outcome) option" where
  "Decoder_decode dec encodedText = decode encodedText (decodingTable dec)"


subsection \<open>A concrete configuration: the decimal digits as alphabet\<close>

definition decimal_alphabet :: jsstring where
  "decimal_alphabet = map of_char ''0123456789''"

definition decimal_table :: jsmap where
  "decimal_table = [(57, 9), (56, 8), (55, 7), (54, 6), (53, 5), (52, 4), (51, 3), (50, 2),
                    (49, 1), (48, 0)]"

section \<open>Notions used in the statements and proofs\<close>

text \<open>The interval invariant of the specification, for the bound \<open>n = msdDivisor * base\<close>.\<close>

definition interval_inv :: "int \<Rightarrow> 'a interval_scheme \<Rightarrow> bool" where
  "interval_inv n st = (0 \<le> lo st \<and> lo st \<le> hi st \<and> hi st \<le> n - 1)"

text \<open>
  The digit loop on the bare numbers: the interval bounds \<open>l\<close> and \<open>h\<close>, the number \<open>p\<close> of
  pending digits and the recorded leading digit \<open>r\<close>, with \<open>b\<close> the base, \<open>m\<close> and \<open>s\<close> the two
  divisors. It returns the digit values emitted and the final four numbers. The loops of
  \<open>encode\<close> and \<open>decode\<close> are related to it below (\<open>enc_digits_pdigits\<close>,
  \<open>dec_digits_pdigits\<close>).
\<close>

primrec pdigits ::
  "nat \<Rightarrow> int \<Rightarrow> int \<Rightarrow> int \<Rightarrow> int \<Rightarrow> int \<Rightarrow> nat \<Rightarrow> int \<Rightarrow> int list \<times> int \<times> int \<times> nat \<times> int" where
  "pdigits 0 b m s l h p r = ([], l, h, p, r)"
| "pdigits (Suc n) b m s l h p r =
     (if h div m - l div m = 1 then
        (if (l div s) mod b = b - 1 \<and> (h div s) mod b = 0
         then pdigits n b m s (l div m * m + l mod s * b) (h div m * m + h mod s * b)
                (p + 1) (h div m)
         else ([], l, h, p, r))
      else if l div m = h div m then
        (case pdigits n b m s (l mod m * b) (h mod m * b) 0 r of
           (ds, x) \<Rightarrow> (h div m # replicate p (if h div m = r then 0 else b - 1) @ ds, x))
      else ([], l, h, p, r))"

text \<open>The byte loop of \<open>encode\<close> on the bare numbers: narrowing, then the digit loop.\<close>

fun pbytes ::
  "nat \<Rightarrow> int \<Rightarrow> int \<Rightarrow> int \<Rightarrow> int list \<Rightarrow> int \<Rightarrow> int \<Rightarrow> nat \<Rightarrow> int \<Rightarrow> int list \<times> int \<times> int \<times> nat \<times> int" where
  "pbytes e b m s [] l h p r = ([], l, h, p, r)"
| "pbytes e b m s (byte # bytes) l h p r =
     (case pdigits e b m s (l + ceil256 ((h - l + 1) * byte))
             (l + (ceil256 ((h - l + 1) * (byte + 1)) - 1)) p r of
        (ds, l1, h1, p1, r1) \<Rightarrow>
          (case pbytes e b m s bytes l1 h1 p1 r1 of (ds', x) \<Rightarrow> (ds @ ds', x)))"

text \<open>
  What holds of the interval, the pending count \<open>p\<close> and the recorded digit \<open>r\<close> between two
  bytes: the interval invariant, a width above \<open>secondMsdDivisor\<close>, a leading digit on which
  the bounds differ unless \<open>lo\<close> is a multiple of \<open>msdDivisor\<close>, and, while digits are
  pending, bounds whose leading digits are \<open>r - 1\<close> and \<open>r\<close>.
\<close>

definition boundary :: "int \<Rightarrow> int \<Rightarrow> int \<Rightarrow> int \<Rightarrow> int \<Rightarrow> nat \<Rightarrow> int \<Rightarrow> bool" where
  "boundary b m s l h p r =
     (0 \<le> l \<and> l \<le> h \<and> h < m * b \<and> s + 1 \<le> h - l
      \<and> (l div m < h div m \<or> l mod m = 0)
      \<and> (0 < p \<longrightarrow> h div m = r \<and> l div m = r - 1))"

text \<open>
  The value of \<open>n\<close> consecutive digits of a digit sequence \<open>t\<close>, read in base \<open>b\<close> from
  position \<open>a\<close>, and the value that the digit accumulator of \<open>decode\<close> holds when the
  leading digit is at position \<open>a\<close> and the \<open>p\<close> digits after it are pending: the leading
  digit followed by the \<open>d - 1\<close> digits after the pending ones.
\<close>

primrec V :: "(nat \<Rightarrow> int) \<Rightarrow> int \<Rightarrow> nat \<Rightarrow> nat \<Rightarrow> int" where
  "V t b a 0 = 0"
| "V t b a (Suc n) = V t b a n * b + t (a + n)"

definition W :: "(nat \<Rightarrow> int) \<Rightarrow> int \<Rightarrow> nat \<Rightarrow> nat \<Rightarrow> nat \<Rightarrow> int" where
  "W t b D a p = t a * b ^ (D - 1) + V t b (a + 1 + p) (D - 1)"

text \<open>
  A digit sequence \<open>t\<close> is consistent with the numbers of the digit loop when the value of
  the accumulator window lies in the interval and the pending digits are all \<open>0\<close> or all
  \<open>b - 1\<close>, as the leading digit is the recorded one or the one below it.
\<close>

definition consistent :: "(nat \<Rightarrow> int) \<Rightarrow> int \<Rightarrow> nat \<Rightarrow> nat \<Rightarrow> int \<Rightarrow> int \<Rightarrow> nat \<Rightarrow> int \<Rightarrow> bool" where
  "consistent t b D a l h p r =
     (l \<le> W t b D a p \<and> W t b D a p \<le> h
      \<and> (\<forall>q<p. t (a + 1 + q) = (if t a = r then 0 else b - 1)))"

text \<open>
  The digit sequence \<open>t\<close> continues, from position \<open>a\<close>, with the digits \<open>ds\<close>, then the
  digit \<open>x\<close>, then zeros only.
\<close>

definition future :: "(nat \<Rightarrow> int) \<Rightarrow> nat \<Rightarrow> int list \<Rightarrow> int \<Rightarrow> bool" where
  "future t a ds x =
     ((\<forall>i<length ds. t (a + i) = ds ! i) \<and> t (a + length ds) = x
      \<and> (\<forall>i. a + length ds < i \<longrightarrow> t i = 0))"

text \<open>
  One iteration, and \<open>q\<close> iterations, of the inner loop \<open>while (requestedDigits > 0)\<close> of
  \<open>decode\<close> on a text without foreign characters, whose digit values are given by \<open>t\<close>
  (zero from the index \<open>e\<close> of the terminator on). \<open>read_digits_readn\<close> relates \<open>readn\<close>
  to \<open>read_digits\<close>.
\<close>

definition read1 :: "(nat \<Rightarrow> int) \<Rightarrow> int \<Rightarrow> int \<Rightarrow> int \<Rightarrow> int \<Rightarrow> nat \<Rightarrow> dec_state \<Rightarrow> dec_state" where
  "read1 t e b m s D st =
     take_digit b m s (if int (pos st) - e = int D - 2 then st\<lparr>isLastDigit := True\<rparr> else st)
       (t (pos st))"

primrec readn :: "nat \<Rightarrow> (nat \<Rightarrow> int) \<Rightarrow> int \<Rightarrow> int \<Rightarrow> int \<Rightarrow> int \<Rightarrow> nat \<Rightarrow> dec_state \<Rightarrow> dec_state" where
  "readn 0 t e b m s D st = st"
| "readn (Suc q) t e b m s D st = readn q t e b m s D (read1 t e b m s D st)"

text \<open>
  The state of \<open>decode\<close> at the start of iteration \<open>n\<close> (counted from 0) of the outer loop
  \<open>while (true)\<close>: the first state, and after an iteration that reads its digits without
  error and does not end the loop, the state that \<open>dec_loop\<close> continues with. \<open>None\<close> when
  the loop has ended, thrown or hung before. A state of this sequence gives the same result
  of \<open>dec_loop\<close> as the first state (\<open>dec_at_loop\<close>).
\<close>

primrec dec_at ::
  "nat \<Rightarrow> jsstring \<Rightarrow> jsmap \<Rightarrow> int \<Rightarrow> int \<Rightarrow> int \<Rightarrow> int \<Rightarrow> nat \<Rightarrow> nat \<Rightarrow> dec_state option" where
  "dec_at 0 encodedText table endIndex base msdDivisor secondMsdDivisor maxDigitsToEmit
     maxDigitsToDecode = Some (dec_init msdDivisor base maxDigitsToDecode)"
| "dec_at (Suc n) encodedText table endIndex base msdDivisor secondMsdDivisor maxDigitsToEmit
     maxDigitsToDecode =
     (case dec_at n encodedText table endIndex base msdDivisor secondMsdDivisor maxDigitsToEmit
             maxDigitsToDecode of
        None \<Rightarrow> None
      | Some st \<Rightarrow>
          (case read_digits encodedText table endIndex base msdDivisor secondMsdDivisor
                  maxDigitsToDecode st of
             Some (Inr st1) \<Rightarrow>
               if isLastDigit st1 then None
               else Some (dec_byte base msdDivisor secondMsdDivisor maxDigitsToEmit st1
                            ((256 * (digitsToDecode st1 - lo st1)) div (hi st1 - lo st1 + 1)))
           | _ \<Rightarrow> None))"

section \<open>Basic facts\<close>

lemma js_rem_nonneg: "0 \<le> a \<Longrightarrow> 0 < b \<Longrightarrow> js_rem a b = a mod b"
  by (cases "a = 0") (simp_all add: js_rem_def)

lemma Map_get_Map_set: "Map_get (Map_set m k v) k' = (if k' = k then Some v else Map_get m k')"
  by (induction m k v rule: Map_set.induct) auto

lemma decodingTable_loop_other:
  "\<forall>j<n. alphabet ! j \<noteq> k \<Longrightarrow> Map_get (decodingTable_loop alphabet n t) k = Map_get t k"
  by (induction n arbitrary: t) (auto simp: Map_get_Map_set)

lemma decodingTable_loop_first:
  "j < n \<Longrightarrow> \<forall>k<j. alphabet ! k \<noteq> alphabet ! j \<Longrightarrow>
   Map_get (decodingTable_loop alphabet n t) (alphabet ! j) = Some j"
proof (induction n arbitrary: t)
  case 0
  then show ?case by simp
next
  case (Suc n)
  show ?case
  proof (cases "j = n")
    case True
    then show ?thesis using Suc.prems(2)
      by (simp add: decodingTable_loop_other Map_get_Map_set)
  next
    case False
    then show ?thesis using Suc by simp
  qed
qed

lemma decimal_alphabet_units: "decimal_alphabet = [48, 49, 50, 51, 52, 53, 54, 55, 56, 57]"
  by code_simp

lemma decimal_new_Encoder: "new_Encoder decimal_alphabet = Inr \<lparr>encodingTable = decimal_alphabet\<rparr>"
  by (simp add: new_Encoder_def decimal_alphabet_units MIN_ALPHABET_SIZE_def MAX_ALPHABET_SIZE_def)

lemma decimal_new_Decoder: "new_Decoder decimal_alphabet = Inr \<lparr>decodingTable = decimal_table\<rparr>"
  unfolding decimal_alphabet_units decimal_table_def by code_simp

lemma calculateParams_10: "calculateParams 10 = Some (100000000000, 10000000000, 4, 12)"
  by code_simp

lemma decimal_table_size: "Map_size decimal_table = 10"
  by (simp add: decimal_table_def Map_size_def)

lemma decimal_table_get:
  "Map_get decimal_table 48 = Some 0" "Map_get decimal_table 49 = Some 1"
  "Map_get decimal_table 32 = None" "Map_get decimal_table 33 = None"
  by (simp_all add: decimal_table_def)

subsection \<open>The loops of calculateParams end for a base of at least 2\<close>

lemma msdDivisor_loop_terminates:
  assumes "2 \<le> base" "1 \<le> m"
  shows "\<exists>j. msdDivisor_loop base m c = Some (m * base ^ j, c + j)
           \<and> 1099511627776 < m * base ^ j \<and> (\<forall>k<j. m * base ^ k \<le> 1099511627776)"
  using assms
proof (induction "nat (1099511627777 - m)" arbitrary: m c rule: less_induct)
  case less
  show ?case
  proof (cases "m \<le> 1099511627776")
    case True
    have "m * 2 \<le> m * base" using less.prems by (intro mult_left_mono) simp_all
    then have gt: "m < m * base" using less.prems by linarith
    then have "nat (1099511627777 - m * base) < nat (1099511627777 - m)" using True by linarith
    moreover have "1 \<le> m * base" using less.prems gt by linarith
    ultimately obtain j where j:
      "msdDivisor_loop base (m * base) (c + 1) = Some (m * base * base ^ j, c + 1 + j)"
      "1099511627776 < m * base * base ^ j" "\<forall>k<j. m * base * base ^ k \<le> 1099511627776"
      using less.hyps[of "m * base" "c + 1"] less.prems by blast
    have "msdDivisor_loop base m c = Some (m * base ^ Suc j, c + Suc j)"
      using True j(1) by (subst msdDivisor_loop.simps) (simp add: mult.assoc)
    moreover have "\<forall>k<Suc j. m * base ^ k \<le> 1099511627776"
    proof (intro allI impI)
      fix k assume k: "k < Suc j"
      show "m * base ^ k \<le> 1099511627776"
      proof (cases k)
        case 0 then show ?thesis using True by simp
      next
        case (Suc k') then show ?thesis using j(3) k by (simp add: mult.assoc)
      qed
    qed
    ultimately show ?thesis using j(2) by (intro exI[of _ "Suc j"]) (simp add: mult.assoc)
  next
    case False
    then show ?thesis by (intro exI[of _ 0]) (subst msdDivisor_loop.simps, simp)
  qed
qed

lemma maxDigitsToEmit_loop_terminates:
  assumes "2 \<le> base" "1 \<le> m"
  shows "\<exists>j. maxDigitsToEmit_loop base m c = Some (m * base ^ j, c + j)
           \<and> 256 \<le> m * base ^ j \<and> (\<forall>k<j. m * base ^ k < 256)"
  using assms
proof (induction "nat (256 - m)" arbitrary: m c rule: less_induct)
  case less
  show ?case
  proof (cases "m < 256")
    case True
    have "m * 2 \<le> m * base" using less.prems by (intro mult_left_mono) simp_all
    then have gt: "m < m * base" using less.prems by linarith
    then have "nat (256 - m * base) < nat (256 - m)" using True by linarith
    moreover have "1 \<le> m * base" using less.prems gt by linarith
    ultimately obtain j where j:
      "maxDigitsToEmit_loop base (m * base) (c + 1) = Some (m * base * base ^ j, c + 1 + j)"
      "256 \<le> m * base * base ^ j" "\<forall>k<j. m * base * base ^ k < 256"
      using less.hyps[of "m * base" "c + 1"] less.prems by blast
    have "maxDigitsToEmit_loop base m c = Some (m * base ^ Suc j, c + Suc j)"
      using True j(1) by (subst maxDigitsToEmit_loop.simps) (simp add: mult.assoc)
    moreover have "\<forall>k<Suc j. m * base ^ k < 256"
    proof (intro allI impI)
      fix k assume k: "k < Suc j"
      show "m * base ^ k < 256"
      proof (cases k)
        case 0 then show ?thesis using True by simp
      next
        case (Suc k') then show ?thesis using j(3) k by (simp add: mult.assoc)
      qed
    qed
    ultimately show ?thesis using j(2) by (intro exI[of _ "Suc j"]) (simp add: mult.assoc)
  next
    case False
    then show ?thesis by (intro exI[of _ 0]) (subst maxDigitsToEmit_loop.simps, simp)
  qed
qed

lemma calculateParams_Some:
  assumes "2 \<le> base" "base \<le> 256"
  shows "\<exists>D E. calculateParams base = Some (base ^ (D + 1), base ^ D, E + 2, D + 2)
           \<and> 3 \<le> D \<and> base ^ (D + 2) \<le> 1099511627776 \<and> 1099511627776 < base ^ (D + 3)
           \<and> base ^ E < 256 \<and> 256 \<le> base ^ (E + 1)"
proof -
  from msdDivisor_loop_terminates[of base 1 0] assms obtain j where j:
    "msdDivisor_loop base 1 0 = Some (base ^ j, j)" "1099511627776 < base ^ j"
    "\<forall>k<j. base ^ k \<le> 1099511627776"
    by auto
  from maxDigitsToEmit_loop_terminates[of base 1 1] assms obtain k where k:
    "maxDigitsToEmit_loop base 1 1 = Some (base ^ k, 1 + k)" "256 \<le> base ^ k"
    "\<forall>i<k. base ^ i < 256"
    by auto
  have "base ^ 5 \<le> 256 ^ 5" using assms by (intro power_mono) simp_all
  then have b5: "base ^ 5 \<le> 1099511627776" by simp
  have "6 \<le> j"
  proof (rule ccontr)
    assume "\<not> 6 \<le> j"
    then have "j \<le> 5" by simp
    then have "base ^ j \<le> base ^ 5" using assms by (intro power_increasing) simp_all
    with b5 j(2) show False by simp
  qed
  define D where "D = j - 3"
  have D: "j = D + 3" "3 \<le> D" using \<open>6 \<le> j\<close> by (simp_all add: D_def)
  have "k \<noteq> 0" using k(2) by (intro notI) simp
  then obtain E where E: "k = E + 1" by (cases k) simp_all
  have pos: "0 < base" using assms by simp
  have "base ^ j = base ^ (D + 1) * (base * base)" using D by (simp add: power_add power2_eq_square eval_nat_numeral)
  then have m: "base ^ j div (base * base) = base ^ (D + 1)" using pos by simp
  have s: "base ^ (D + 1) div base = base ^ D" using pos by simp
  have "calculateParams base = Some (base ^ (D + 1), base ^ D, E + 2, D + 2)"
    using j(1) k(1) m s D E by (simp add: calculateParams_def)
  moreover have "base ^ (D + 2) \<le> 1099511627776" using j(3)[rule_format, of "D + 2"] D by simp
  moreover have "base ^ E < 256" using k(3)[rule_format, of E] E by simp
  moreover have "1099511627776 < base ^ (D + 3)" using j(2) D by simp
  moreover have "256 \<le> base ^ (E + 1)" using k(2) E by simp
  ultimately show ?thesis using D(2) by (intro exI[of _ D] exI[of _ E]) simp
qed


subsection \<open>The whitespace branch of the decoder's inner loop\<close>

text \<open>On a whitespace character that is not in the alphabet the inner loop of \<open>decode\<close>
  repeats with the same state: \<open>continue\<close> skips \<open>++i\<close>. It never ends.\<close>

lemma read_digits_whitespace_diverges:
  assumes "0 < requestedDigits st" "int (pos st) < endIndex"
    "Map_get table (encodedText ! pos st) = None" "isWhitespace (encodedText ! pos st)"
  shows "read_digits encodedText table endIndex base msdDivisor secondMsdDivisor
           maxDigitsToDecode st = None"
proof (rule ccontr)
  assume "read_digits encodedText table endIndex base msdDivisor secondMsdDivisor
            maxDigitsToDecode st \<noteq> None"
  then obtain y where y: "read_digits encodedText table endIndex base msdDivisor
      secondMsdDivisor maxDigitsToDecode st = Some y"
    by auto
  have "\<not> (0 < requestedDigits st \<and> int (pos st) < endIndex
      \<and> Map_get table (encodedText ! pos st) = None \<and> isWhitespace (encodedText ! pos st))"
  proof (rule read_digits.raw_induct[where P = "\<lambda>t tb e b m s d st y.
      \<not> (0 < requestedDigits st \<and> int (pos st) < e
         \<and> Map_get tb (t ! pos st) = None \<and> isWhitespace (t ! pos st))", OF _ y], goal_cases)
    case (1 rd t tb e b m s d st0 y0)
    show ?case
    proof
      assume stuck: "0 < requestedDigits st0 \<and> int (pos st0) < e
        \<and> Map_get tb (t ! pos st0) = None \<and> isWhitespace (t ! pos st0)"
      with 1(2) have "rd t tb e b m s d st0 = Some y0" by (simp add: Let_def)
      from 1(1)[OF this] stuck show False by simp
    qed
  qed
  with assms show False by simp
qed

section \<open>Interval arithmetic\<close>

lemma ceil256_ge: "x \<le> 256 * ceil256 x"
  using mult_div_mod_eq[of 256 "- x"] pos_mod_sign[of 256 "- x"]
  unfolding ceil256_def by linarith

lemma ceil256_le: "256 * ceil256 x \<le> x + 255"
  using mult_div_mod_eq[of 256 "- x"] pos_mod_bound[of 256 "- x"]
  unfolding ceil256_def by linarith

lemma ceil256_nonneg: "0 \<le> x \<Longrightarrow> 0 \<le> ceil256 x"
  using ceil256_ge[of x] by linarith

lemma narrow_bounds:
  fixes l h b w :: int
  assumes "l \<le> h" "0 \<le> b" "b \<le> 255" and wdef: "w = h - l + 1"
  shows "l \<le> l + ceil256 (w * b)"
    and "l + (ceil256 (w * (b + 1)) - 1) \<le> h"
    and "w div 256 - 1 \<le> (l + (ceil256 (w * (b + 1)) - 1)) - (l + ceil256 (w * b))"
proof -
  define P where "P = w * b"
  define A where "A = ceil256 P"
  define B where "B = ceil256 (P + w)"
  have e: "w * (b + 1) = P + w" by (simp add: algebra_simps P_def)
  have w: "0 < w" using assms by simp
  have P0: "0 \<le> P" using w assms by (simp add: P_def)
  have "w * b \<le> w * 255" using w assms by (intro mult_left_mono) simp_all
  then have up: "P \<le> 255 * w" by (simp add: P_def)
  have A1: "P \<le> 256 * A" and A2: "256 * A \<le> P + 255"
    unfolding A_def by (rule ceil256_ge, rule ceil256_le)
  have B1: "P + w \<le> 256 * B" and B2: "256 * B \<le> P + w + 255"
    unfolding B_def by (rule ceil256_ge, rule ceil256_le)
  have A0: "0 \<le> A" unfolding A_def by (rule ceil256_nonneg[OF P0])
  have Bw: "B \<le> w" using B2 up by linarith
  have d1: "256 * (w div 256) \<le> w"
    using mult_div_mod_eq[of 256 w] pos_mod_sign[of 256 w] by linarith
  have BA: "w div 256 \<le> B - A" using B1 A2 d1 by linarith
  have eqA: "ceil256 (w * b) = A" by (simp only: A_def P_def)
  have eqB: "ceil256 (w * (b + 1)) = B" by (simp only: B_def e)
  show "l \<le> l + ceil256 (w * b)" unfolding eqA using A0 by linarith
  show "l + (ceil256 (w * (b + 1)) - 1) \<le> h" unfolding eqB using Bw wdef by linarith
  show "w div 256 - 1 \<le> (l + (ceil256 (w * (b + 1)) - 1)) - (l + ceil256 (w * b))"
    unfolding eqA eqB using BA by linarith
qed

lemma div_eqI:
  fixes a w q :: int
  assumes "w * q \<le> a" "a < w * (q + 1)"
  shows "a div w = q"
proof (rule int_div_pos_eq[of a w q "a - w * q"])
  show "a = w * q + (a - w * q)" by simp
  show "0 \<le> a - w * q" using assms by simp
  show "a - w * q < w" using assms by (simp add: algebra_simps)
qed

lemma narrow_inverse:
  fixes l h b x :: int
  assumes "l \<le> h"
    and "l + ceil256 ((h - l + 1) * b) \<le> x"
    and "x \<le> l + (ceil256 ((h - l + 1) * (b + 1)) - 1)"
  shows "(256 * (x - l)) div (h - l + 1) = b"
proof -
  define w where "w = h - l + 1"
  have 1: "w * b \<le> 256 * (x - l)" using ceil256_ge[of "w * b"] assms(2) by (simp add: w_def)
  have "256 * (x - l) \<le> 256 * ceil256 (w * (b + 1)) - 256" using assms(3) by (simp add: w_def)
  then have 2: "256 * (x - l) < w * (b + 1)" using ceil256_le[of "w * (b + 1)"] by linarith
  show ?thesis using div_eqI[OF 1 2] by (simp add: w_def)
qed

text \<open>Three-part decomposition of a number by the two divisors\<close>

lemma digits3:
  fixes x s b :: int
  assumes "0 < s" "0 < b"
  shows "x = (x div (s * b)) * (s * b) + ((x div s) mod b) * s + x mod s"
    and "0 \<le> (x div s) mod b" and "(x div s) mod b < b"
    and "0 \<le> x mod s" and "x mod s < s"
proof -
  have "x mod (s * b) = s * ((x div s) mod b) + x mod s"
    using assms by (simp add: zmod_zmult2_eq)
  then show "x = (x div (s * b)) * (s * b) + ((x div s) mod b) * s + x mod s"
    using div_mult_mod_eq[of x "s * b"] by (simp add: algebra_simps)
qed (use assms in simp_all)

lemma digits3_unique:
  fixes x s b a c e :: int
  assumes "0 < s" "0 < b" "x = a * (s * b) + c * s + e" "0 \<le> c" "c < b" "0 \<le> e" "e < s"
  shows "x div (s * b) = a" and "(x div s) mod b = c" and "x mod s = e"
proof -
  have xs: "x = s * (a * b + c) + e" using assms(3) by (simp add: algebra_simps)
  have d: "x div s = a * b + c" using int_div_pos_eq[OF xs assms(6,7)] .
  show "x mod s = e" using int_mod_pos_eq[OF xs assms(6,7)] .
  have "a * b + c = b * a + c" by simp
  from int_div_pos_eq[OF this assms(4,5)] int_mod_pos_eq[OF this assms(4,5)]
  have "(a * b + c) div b = a" "(a * b + c) mod b = c" by simp_all
  then show "(x div s) mod b = c" using d by simp
  have "x div (s * b) = (x div s) div b" using assms by (simp add: zdiv_zmult2_eq)
  then show "x div (s * b) = a" using d \<open>(a * b + c) div b = a\<close> by simp
qed


lemma div_mod_parts:
  fixes x m :: int
  assumes "0 < m"
  shows "x = x div m * m + x mod m" "0 \<le> x mod m" "x mod m < m"
  using assms by simp_all

lemma msd_bounds:
  fixes x m b :: int
  assumes "0 < m" "0 \<le> x" "x < m * b"
  shows "0 \<le> x div m" "x div m < b"
proof -
  show "0 \<le> x div m" using assms by (simp add: pos_imp_zdiv_nonneg_iff)
  have "x div m * m \<le> x" using div_mod_parts[OF assms(1), of x] by linarith
  then have "x div m * m < b * m" using assms(3) by (simp add: mult.commute)
  then show "x div m < b" using assms(1) by (simp add: mult_less_cancel_right)
qed

lemma settle_facts:
  fixes l h m b :: int
  assumes "0 < m" "0 < b" "0 \<le> l" "l \<le> h" "h < m * b" "l div m = h div m"
  shows "0 \<le> l mod m * b" "l mod m * b \<le> h mod m * b" "h mod m * b < m * b"
    "h mod m * b - l mod m * b = (h - l) * b"
proof -
  have e: "l div m * m = h div m * m" using assms(6) by simp
  have d: "h mod m - l mod m = h - l"
    using div_mod_parts(1)[OF assms(1), of l] div_mod_parts(1)[OF assms(1), of h] e by linarith
  show "0 \<le> l mod m * b" using assms by simp
  have "l mod m \<le> h mod m" using d assms(4) by linarith
  then show "l mod m * b \<le> h mod m * b" using assms(2) by (simp add: mult_right_mono)
  show "h mod m * b < m * b" using assms(1,2) by (simp add: mult_strict_right_mono)
  have "(h mod m - l mod m) * b = (h - l) * b" using d by simp
  then show "h mod m * b - l mod m * b = (h - l) * b" by (simp add: left_diff_distrib)
qed

lemma straddle_lo:
  fixes l s b :: int
  assumes "0 < s" "0 < b" "(l div s) mod b = b - 1"
  shows "l = l div (s * b) * (s * b) + (s * b - s) + l mod s"
proof -
  have "(b - 1) * s = s * b - s" by (simp add: algebra_simps)
  then show ?thesis using digits3(1)[OF assms(1,2), of l] unfolding assms(3) by linarith
qed

lemma straddle_hi:
  fixes h s b :: int
  assumes "0 < s" "0 < b" "(h div s) mod b = 0"
  shows "h = h div (s * b) * (s * b) + h mod s"
  using digits3(1)[OF assms(1,2), of h] unfolding assms(3) by linarith

lemma defer_facts:
  fixes l h m s b :: int
  assumes "0 < s" "2 \<le> b" "m = s * b" "0 \<le> l" "h < m * b"
    "h div m - l div m = 1" "(l div s) mod b = b - 1" "(h div s) mod b = 0"
  shows "0 \<le> l div m * m + l mod s * b"
    "l div m * m + l mod s * b \<le> h div m * m + h mod s * b"
    "h div m * m + h mod s * b < m * b"
    "(h div m * m + h mod s * b) - (l div m * m + l mod s * b) = (h - l) * b"
    "(l div m * m + l mod s * b) div m = l div m"
    "(h div m * m + h mod s * b) div m = h div m"
proof -
  have b: "0 < b" using assms by simp
  have m: "0 < m" using assms b by simp
  define lm where "lm = l div m"
  define hm where "hm = h div m"
  define l0 where "l0 = l mod s"
  define h0 where "h0 = h mod s"
  have l: "l = lm * m + (m - s) + l0"
    unfolding lm_def l0_def assms(3) by (rule straddle_lo[OF assms(1) b assms(7)])
  have h: "h = hm * m + h0"
    unfolding hm_def h0_def assms(3) by (rule straddle_hi[OF assms(1) b assms(8)])
  have l0: "0 \<le> l0" "l0 < s" using assms(1) by (simp_all add: l0_def)
  have h0: "0 \<le> h0" "h0 < s" using assms(1) by (simp_all add: h0_def)
  have hl: "hm = lm + 1" using assms(6) by (simp add: hm_def lm_def)
  have lm0: "0 \<le> lm" using assms(4) m by (simp add: lm_def pos_imp_zdiv_nonneg_iff)
  have lmm: "0 \<le> lm * m" using lm0 m by simp
  have hmm: "hm * m = lm * m + m" unfolding hl by (simp add: algebra_simps)
  have "0 \<le> h" using h hmm lmm h0 m by linarith
  then have hmb: "hm < b" unfolding hm_def by (rule msd_bounds(2)[OF m _ assms(5)])
  have l0b: "0 \<le> l0 * b" "l0 * b < m"
    using l0 b by (simp_all add: assms(3) mult_strict_right_mono)
  have h0b: "0 \<le> h0 * b" "h0 * b < m"
    using h0 b by (simp_all add: assms(3) mult_strict_right_mono)
  show "0 \<le> l div m * m + l mod s * b"
    using lmm l0b unfolding lm_def[symmetric] l0_def[symmetric] by linarith
  show "l div m * m + l mod s * b \<le> h div m * m + h mod s * b"
    unfolding lm_def[symmetric] l0_def[symmetric] hm_def[symmetric] h0_def[symmetric]
    using hmm l0b h0b by linarith
  have "(hm + 1) * m \<le> b * m" using hmb m by (intro mult_right_mono) simp_all
  then have "hm * m + m \<le> m * b" by (simp add: algebra_simps)
  then show "h div m * m + h mod s * b < m * b"
    unfolding hm_def[symmetric] h0_def[symmetric] using h0b by linarith
  have "h - l = s + h0 - l0" using l h hmm by linarith
  then have "(h - l) * b = (s + h0 - l0) * b" by simp
  also have "\<dots> = m + h0 * b - l0 * b" by (simp add: assms(3) algebra_simps)
  finally show "(h div m * m + h mod s * b) - (l div m * m + l mod s * b) = (h - l) * b"
    unfolding lm_def[symmetric] l0_def[symmetric] hm_def[symmetric] h0_def[symmetric]
    using hmm by linarith
  have "lm * m + l0 * b = m * lm + l0 * b" by simp
  from int_div_pos_eq[OF this l0b]
  show "(l div m * m + l mod s * b) div m = l div m"
    unfolding lm_def[symmetric] l0_def[symmetric] .
  have "hm * m + h0 * b = m * hm + h0 * b" by simp
  from int_div_pos_eq[OF this h0b]
  show "(h div m * m + h mod s * b) div m = h div m"
    unfolding hm_def[symmetric] h0_def[symmetric] .
qed

lemma break_width_straddle:
  fixes l h m s b :: int
  assumes "0 < s" "2 \<le> b" "m = s * b" "h div m - l div m = 1"
    "\<not> ((l div s) mod b = b - 1 \<and> (h div s) mod b = 0)"
  shows "s + 1 \<le> h - l"
proof -
  have b: "0 < b" using assms by simp
  define lm where "lm = l div m"
  define hm where "hm = h div m"
  define l2 where "l2 = (l div s) mod b"
  define h2 where "h2 = (h div s) mod b"
  define l0 where "l0 = l mod s"
  define h0 where "h0 = h mod s"
  have l: "l = lm * m + l2 * s + l0"
    unfolding lm_def l0_def l2_def assms(3) by (rule digits3(1)[OF assms(1) b])
  have h: "h = hm * m + h2 * s + h0"
    unfolding hm_def h0_def h2_def assms(3) by (rule digits3(1)[OF assms(1) b])
  have hl: "hm = lm + 1" using assms(4) by (simp add: hm_def lm_def)
  have hmm: "hm * m = lm * m + m" unfolding hl by (simp add: algebra_simps)
  have l0: "0 \<le> l0" "l0 < s" using assms(1) by (simp_all add: l0_def)
  have h0: "0 \<le> h0" "h0 < s" using assms(1) by (simp_all add: h0_def)
  have l2: "0 \<le> l2" "l2 < b" using b by (simp_all add: l2_def)
  have h2: "0 \<le> h2" "h2 < b" using b by (simp_all add: h2_def)
  have ms: "m = b * s" using assms(3) by simp
  have "\<not> (l2 = b - 1 \<and> h2 = 0)" using assms(5) unfolding l2_def h2_def .
  then consider "l2 \<le> b - 2" | "1 \<le> h2" using l2 h2 by linarith
  then show ?thesis
  proof cases
    case 1
    then have "l2 * s \<le> (b - 2) * s" using assms(1) by (intro mult_right_mono) simp_all
    then have "l2 * s \<le> m - 2 * s" by (simp add: ms algebra_simps)
    moreover have "0 \<le> h2 * s" using h2 assms(1) by simp
    ultimately show ?thesis using l h hmm l0 h0 by linarith
  next
    case 2
    then have "1 * s \<le> h2 * s" using assms(1) by (intro mult_right_mono) simp_all
    moreover have "l2 * s \<le> (b - 1) * s" using l2 assms(1) by (intro mult_right_mono) simp_all
    then have "l2 * s \<le> m - s" by (simp add: ms algebra_simps)
    ultimately show ?thesis using l h hmm l0 h0 by linarith
  qed
qed

lemma break_width_far:
  fixes l h m :: int
  assumes "0 < m" "l \<le> h" "h div m - l div m \<noteq> 1" "l div m \<noteq> h div m"
  shows "m + 1 \<le> h - l"
proof -
  have "l div m \<le> h div m" using assms(1,2) by (simp add: zdiv_mono1)
  then have "l div m + 2 \<le> h div m" using assms(3,4) by linarith
  then have "(l div m + 2) * m \<le> h div m * m" using assms(1) by (intro mult_right_mono) simp_all
  then have "l div m * m + 2 * m \<le> h div m * m" by (simp add: algebra_simps)
  then show ?thesis
    using div_mod_parts[OF assms(1), of l] div_mod_parts[OF assms(1), of h] by linarith
qed


lemma toString_add:
  "add sb (Some x) = Inr sb' \<Longrightarrow> toString sb' = toString sb @ x"
  by (auto simp: add_def toString_def Let_def split: if_splits)

lemma add_Some: "\<exists>sb'. add sb (Some x) = Inr sb'"
  by (simp add: add_def Let_def)

lemma add_loop_Some:
  "\<exists>sb'. add_loop n (Some x) sb = Inr sb' \<and> toString sb' = toString sb @ concat (replicate n x)"
proof (induction n arbitrary: sb)
  case 0
  then show ?case by simp
next
  case (Suc n)
  obtain sb1 where 1: "add sb (Some x) = Inr sb1" using add_Some by blast
  from Suc[of sb1] obtain sb2 where 2: "add_loop n (Some x) sb1 = Inr sb2"
    "toString sb2 = toString sb1 @ concat (replicate n x)" by blast
  show ?case using 1 2 toString_add[OF 1] by simp
qed

lemma at_index_Some: "0 \<le> k \<Longrightarrow> k < int (length tab) \<Longrightarrow> at_index tab k = Some [tab ! nat k]"
  by (simp add: at_index_def)

lemma pdigits_cases [consumes 1, case_names deferred settled stop_near stop_far]:
  assumes "pdigits (Suc n) b m s l h p r = res"
  obtains
    "h div m - l div m = 1" "(l div s) mod b = b - 1" "(h div s) mod b = 0"
      "pdigits n b m s (l div m * m + l mod s * b) (h div m * m + h mod s * b) (p + 1) (h div m) = res"
  | ds x where "h div m - l div m \<noteq> 1" "l div m = h div m"
      "pdigits n b m s (l mod m * b) (h mod m * b) 0 r = (ds, x)"
      "res = (h div m # replicate p (if h div m = r then 0 else b - 1) @ ds, x)"
  | "h div m - l div m = 1" "\<not> ((l div s) mod b = b - 1 \<and> (h div s) mod b = 0)"
      "res = ([], l, h, p, r)"
  | "h div m - l div m \<noteq> 1" "l div m \<noteq> h div m" "res = ([], l, h, p, r)"
proof (cases "h div m - l div m = 1")
  case True
  show ?thesis
  proof (cases "(l div s) mod b = b - 1 \<and> (h div s) mod b = 0")
    case st: True
    then show ?thesis using assms True that(1) by simp
  next
    case False
    then show ?thesis using assms True that(3) by auto
  qed
next
  case False
  show ?thesis
  proof (cases "l div m = h div m")
    case eq: True
    obtain ds x where dx: "pdigits n b m s (l mod m * b) (h mod m * b) 0 r = (ds, x)"
      by (cases "pdigits n b m s (l mod m * b) (h mod m * b) 0 r") auto
    show ?thesis using assms False eq dx that(2)[OF False eq dx] by simp
  next
    case ne: False
    then show ?thesis using assms False that(4) by simp
  qed
qed

lemma pdigits_interval:
  fixes b m s :: int
  assumes "0 < s" "2 \<le> b" "m = s * b"
  shows "0 \<le> l \<Longrightarrow> l \<le> h \<Longrightarrow> h < m * b \<Longrightarrow> pdigits n b m s l h p r = (ds, l', h', p', r')
    \<Longrightarrow> 0 \<le> l' \<and> l' \<le> h' \<and> h' < m * b \<and> (\<forall>d\<in>set ds. 0 \<le> d \<and> d < b)"
proof (induction n arbitrary: l h p r ds)
  case 0
  then show ?case by simp
next
  case (Suc n)
  have b: "0 < b" and m: "0 < m" using assms by simp_all
  from Suc.prems(4) show ?case
  proof (cases rule: pdigits_cases)
    case deferred
    note f = defer_facts[OF assms Suc.prems(1,3) deferred(1-3)]
    show ?thesis by (rule Suc.IH[OF f(1) f(2) f(3) deferred(4)])
  next
    case (settled ds1 x)
    note f = settle_facts[OF m b Suc.prems(1-3) settled(2)]
    from settled(4) have x: "x = (l', h', p', r')" and ds: "ds = h div m # replicate p (if h div m = r then 0 else b - 1) @ ds1"
      by simp_all
    have ih: "0 \<le> l' \<and> l' \<le> h' \<and> h' < m * b \<and> (\<forall>d\<in>set ds1. 0 \<le> d \<and> d < b)"
      by (rule Suc.IH[OF f(1) f(2) f(3) settled(3)[unfolded x]])
    have "0 \<le> h" using Suc.prems by simp
    then have "0 \<le> h div m" "h div m < b" using msd_bounds[OF m _ Suc.prems(3)] by simp_all
    then show ?thesis using ih ds b by auto
  next
    case stop_near
    then show ?thesis using Suc.prems by simp
  next
    case stop_far
    then show ?thesis using Suc.prems by simp
  qed
qed


lemma pdigits_pending_strong:
  fixes b m s :: int
  assumes "0 < s" "2 \<le> b" "m = s * b"
  shows "0 \<le> l \<Longrightarrow> l \<le> h \<Longrightarrow> h < m * b
    \<Longrightarrow> (0 < p \<longrightarrow> h div m = r \<and> l div m = r - 1)
    \<Longrightarrow> pdigits n b m s l h p r = (ds, l', h', p', r')
    \<Longrightarrow> (0 < p' \<longrightarrow> h' div m = r' \<and> l' div m = r' - 1)"
proof (induction n arbitrary: l h p r ds)
  case 0
  then show ?case by simp
next
  case (Suc n)
  have b: "0 < b" and m: "0 < m" using assms by simp_all
  from Suc.prems(5) show ?case
  proof (cases rule: pdigits_cases)
    case deferred
    note f = defer_facts[OF assms Suc.prems(1,3) deferred(1-3)]
    have "0 < p + 1 \<longrightarrow> (h div m * m + h mod s * b) div m = h div m
        \<and> (l div m * m + l mod s * b) div m = h div m - 1"
      using f(5,6) deferred(1) by simp
    from Suc.IH[OF f(1) f(2) f(3) this deferred(4)] show ?thesis .
  next
    case (settled ds1 x)
    note f = settle_facts[OF m b Suc.prems(1-3) settled(2)]
    from settled(4) have x: "x = (l', h', p', r')" by simp
    have "(0::nat) < 0 \<longrightarrow> (h mod m * b) div m = r \<and> (l mod m * b) div m = r - 1" by simp
    from Suc.IH[OF f(1) f(2) f(3) this settled(3)[unfolded x]] show ?thesis .
  next
    case stop_near
    then show ?thesis using Suc.prems by simp
  next
    case stop_far
    then show ?thesis using Suc.prems by simp
  qed
qed

lemma pdigits_pending_weak:
  fixes b m s :: int
  assumes "0 < s" "2 \<le> b" "m = s * b"
    and "0 \<le> l" "l \<le> h" "h < m * b"
    and "0 < p \<longrightarrow> r - 1 \<le> l div m \<and> h div m \<le> r"
    and "pdigits (Suc n) b m s l h p r = (ds, l', h', p', r')"
  shows "0 < p' \<longrightarrow> h' div m = r' \<and> l' div m = r' - 1"
proof -
  have b: "0 < b" and m: "0 < m" using assms by simp_all
  from assms(8) show ?thesis
  proof (cases rule: pdigits_cases)
    case deferred
    note f = defer_facts[OF assms(1-4,6) deferred(1-3)]
    have "0 < p + 1 \<longrightarrow> (h div m * m + h mod s * b) div m = h div m
        \<and> (l div m * m + l mod s * b) div m = h div m - 1"
      using f(5,6) deferred(1) by simp
    from pdigits_pending_strong[OF assms(1-3) f(1) f(2) f(3) this deferred(4)] show ?thesis .
  next
    case (settled ds1 x)
    note f = settle_facts[OF m b assms(4-6) settled(2)]
    from settled(4) have x: "x = (l', h', p', r')" by simp
    have "(0::nat) < 0 \<longrightarrow> (h mod m * b) div m = r \<and> (l mod m * b) div m = r - 1" by simp
    from pdigits_pending_strong[OF assms(1-3) f(1) f(2) f(3) this settled(3)[unfolded x]]
    show ?thesis .
  next
    case stop_near
    then show ?thesis using assms(7) by auto
  next
    case stop_far
    have "l div m \<le> h div m" using assms(5) m by (simp add: zdiv_mono1)
    then show ?thesis using stop_far assms(7) by auto
  qed
qed

lemma pdigits_boundary:
  fixes b m s G Q c :: int
  assumes "0 < s" "2 \<le> b" "m = s * b"
    and "m = G * Q" "0 < G" "Q \<le> c + 1" "s + 1 \<le> G * c"
  shows "0 \<le> l \<Longrightarrow> l \<le> h \<Longrightarrow> h < m * b \<Longrightarrow> g dvd l \<Longrightarrow> g dvd h \<Longrightarrow> g * c \<le> h - l
    \<Longrightarrow> g * b ^ n = G \<Longrightarrow> 0 < g
    \<Longrightarrow> pdigits n b m s l h p r = (ds, l', h', p', r')
    \<Longrightarrow> s + 1 \<le> h' - l' \<and> (l' div m < h' div m \<or> l' mod m = 0)"
proof (induction n arbitrary: l h p r ds g)
  case 0
  have m: "0 < m" using assms by simp
  from 0 have e: "l' = l" "h' = h" and g: "g = G" by simp_all
  have Gc: "G * c \<le> h - l" using 0(6) g by simp
  have w: "s + 1 \<le> h - l" using Gc assms(7) by simp
  have "l div m < h div m \<or> l mod m = 0"
  proof (rule ccontr)
    assume "\<not> (l div m < h div m \<or> l mod m = 0)"
    moreover have "l div m \<le> h div m" using 0(2) m by (simp add: zdiv_mono1)
    ultimately have eq: "l div m * m = h div m * m" and nz: "l mod m \<noteq> 0" by simp_all
    have "G dvd m" using assms(4) by simp
    then have "G dvd l mod m" using 0(4) g by (simp add: dvd_mod)
    moreover have "0 < l mod m" using nz m pos_mod_sign[of m l] by linarith
    ultimately have "G \<le> l mod m" by (simp add: zdvd_imp_le)
    moreover have "h mod m = l mod m + (h - l)"
      using div_mod_parts(1)[OF m, of l] div_mod_parts(1)[OF m, of h] eq by linarith
    moreover have "G * Q \<le> G * (c + 1)" using assms(5,6) by (intro mult_left_mono) simp_all
    then have "m \<le> G + G * c" using assms(4) by (simp add: algebra_simps)
    moreover have "h mod m < m" using m by simp
    ultimately show False using Gc by linarith
  qed
  then show ?case using w e by simp
next
  case (Suc n)
  have b: "0 < b" and m: "0 < m" using assms by simp_all
  have gb: "g * b * b ^ n = G" using Suc.prems(7) by (simp add: mult.assoc)
  have gb0: "0 < g * b" using Suc.prems(8) b by simp
  have "g * b dvd G" using gb by (metis dvd_triv_left)
  then have gbm: "g * b dvd m" using assms(4) by (metis dvd_mult2)
  then have gm: "g dvd m" by (metis dvd_mult_left)
  have gs: "g dvd s" using gbm b unfolding assms(3) by simp
  from Suc.prems(9) show ?case
  proof (cases rule: pdigits_cases)
    case deferred
    note f = defer_facts[OF assms(1-3) Suc.prems(1,3) deferred(1-3)]
    have "g dvd l mod s" "g dvd h mod s" using Suc.prems(4,5) gs by (simp_all add: dvd_mod)
    then have "g * b dvd l mod s * b" "g * b dvd h mod s * b" by (simp_all add: mult_dvd_mono)
    then have d: "g * b dvd l div m * m + l mod s * b" "g * b dvd h div m * m + h mod s * b"
      using gbm by (simp_all add: dvd_add dvd_mult)
    have "g * c * b \<le> (h - l) * b" using Suc.prems(6) b by (intro mult_right_mono) simp_all
    then have w: "g * b * c \<le> (h div m * m + h mod s * b) - (l div m * m + l mod s * b)"
      unfolding f(4) by (simp add: algebra_simps)
    from Suc.IH[OF f(1) f(2) f(3) d w gb gb0 deferred(4)] show ?thesis .
  next
    case (settled ds1 x)
    note f = settle_facts[OF m b Suc.prems(1-3) settled(2)]
    from settled(4) have x: "x = (l', h', p', r')" by simp
    have "g dvd l mod m" "g dvd h mod m" using Suc.prems(4,5) gm by (simp_all add: dvd_mod)
    then have d: "g * b dvd l mod m * b" "g * b dvd h mod m * b" by (simp_all add: mult_dvd_mono)
    have "g * c * b \<le> (h - l) * b" using Suc.prems(6) b by (intro mult_right_mono) simp_all
    then have w: "g * b * c \<le> h mod m * b - l mod m * b"
      unfolding f(4) by (simp add: algebra_simps)
    from Suc.IH[OF f(1) f(2) f(3) d w gb gb0 settled(3)[unfolded x]] show ?thesis .
  next
    case stop_near
    have "s + 1 \<le> h - l" using break_width_straddle[OF assms(1-3) stop_near(1,2)] .
    then show ?thesis using stop_near by auto
  next
    case stop_far
    have "m + 1 \<le> h - l" using break_width_far[OF m Suc.prems(2) stop_far(1,2)] .
    moreover have "s * 1 \<le> s * b" using assms(1,2) by (intro mult_left_mono) simp_all
    moreover have "l div m \<le> h div m" using Suc.prems(2) m by (simp add: zdiv_mono1)
    ultimately show ?thesis using stop_far assms(3) by auto
  qed
qed


lemma div256_bounds:
  fixes x :: int
  shows "256 * (x div 256) \<le> x" and "x < 256 * (x div 256) + 256"
proof -
  have "0 \<le> x mod 256" "x mod 256 < 256" by simp_all
  then show "256 * (x div 256) \<le> x" and "x < 256 * (x div 256) + 256"
    using mult_div_mod_eq[of 256 x] by linarith+
qed

lemma params_facts:
  fixes b m s :: int
  assumes "2 \<le> b" "b \<le> 256" "calculateParams b = Some (m, s, E, D)"
  shows "0 < s" and "m = s * b" and "65536 < s" and "m * b \<le> 1099511627776"
    and "\<exists>Q. m = b ^ E * Q \<and> Q \<le> ((s + 2) div 256 - 1) + 1"
    and "s + 1 \<le> b ^ E * ((s + 2) div 256 - 1)"
    and "0 < E" and "m = b ^ (D - 1)" and "s = b ^ (D - 2)" and "5 \<le> D" and "0 < m"
proof -
  from calculateParams_Some[OF assms(1,2)] obtain D' E' where p:
    "calculateParams b = Some (b ^ (D' + 1), b ^ D', E' + 2, D' + 2)"
    "3 \<le> D'" "b ^ (D' + 2) \<le> 1099511627776" "1099511627776 < b ^ (D' + 3)"
    "b ^ E' < 256" "256 \<le> b ^ (E' + 1)"
    by blast
  from p(1) assms(3) have e: "m = b ^ (D' + 1)" "s = b ^ D'" "E = E' + 2" "D = D' + 2"
    by simp_all
  have b0: "0 < b" and b1: "1 < b" using assms by simp_all
  show s0: "0 < s" using b0 e by simp
  show msb: "m = s * b" using e by simp
  show "0 < m" using b0 e by simp
  show "m * b \<le> 1099511627776" using p(3) e by (simp add: mult.commute)
  show "0 < E" using e by simp
  show "m = b ^ (D - 1)" "s = b ^ (D - 2)" "5 \<le> D" using e p(2) by simp_all
  have "b ^ 3 \<le> 256 ^ 3" using assms by (intro power_mono) simp_all
  then have "s * b ^ 3 \<le> s * 16777216" using s0 by (intro mult_left_mono) simp_all
  moreover have "b ^ (D' + 3) = s * b ^ 3" using e by (simp add: power_add)
  ultimately have "1099511627776 < s * 16777216" using p(4) by linarith
  then show s_big: "65536 < s" by linarith
  have "(b ^ E') ^ 5 < 256 ^ 5" using p(5) b0 by (intro power_strict_mono) simp_all
  then have "b ^ (E' * 5) < b ^ (D' + 3)" using p(4) by (simp add: power_mult)
  then have "E' * 5 < D' + 3" using b1 by (simp add: power_less_imp_less_exp)
  then have le: "E' + 1 \<le> D'" using p(2) by linarith
  define K where "K = b ^ (E' + 1)"
  define Q where "Q = b ^ (D' - (E' + 1))"
  have "b ^ D' = b ^ ((E' + 1) + (D' - (E' + 1)))" using le by simp
  then have sKQ: "s = K * Q" unfolding K_def Q_def e(2) by (simp only: power_add)
  have K256: "256 \<le> K" using p(6) by (simp add: K_def)
  have Q0: "0 < Q" using b0 by (simp add: Q_def)
  have bE: "b ^ E = K * b" using e by (simp add: K_def)
  have mQ: "m = b ^ E * Q" using msb sKQ bE by (simp add: algebra_simps)
  define q where "q = (s + 2) div 256"
  have q2: "s + 2 < 256 * q + 256" unfolding q_def by (rule div256_bounds(2))
  have "256 * Q \<le> K * Q" using K256 Q0 by (intro mult_right_mono) simp_all
  then have "256 * Q \<le> s + 2" using sKQ by linarith
  then have "Q \<le> q" using q2 by linarith
  then have "m = b ^ E * Q \<and> Q \<le> (q - 1) + 1" using mQ by simp
  then show "\<exists>Q. m = b ^ E * Q \<and> Q \<le> ((s + 2) div 256 - 1) + 1" unfolding q_def by blast
  have c1: "s - 509 \<le> 256 * q - 256" using q2 by linarith
  then have c0: "0 \<le> q - 1" using s_big by linarith
  have "512 \<le> K * b" using K256 assms(1) mult_mono[of 256 K 2 b] by simp
  then have "512 * (q - 1) \<le> K * b * (q - 1)" using c0 by (intro mult_right_mono) simp_all
  moreover have "512 * (q - 1) = 512 * q - 512" by simp
  ultimately have "s + 1 \<le> K * b * (q - 1)" using c1 s_big by linarith
  then show "s + 1 \<le> b ^ E * ((s + 2) div 256 - 1)" unfolding bE q_def .
qed


lemma narrow_simps [simp]:
  "lo (narrow st byte) = lo st + ceil256 ((hi st - lo st + 1) * byte)"
  "hi (narrow st byte) = lo st + (ceil256 ((hi st - lo st + 1) * (byte + 1)) - 1)"
  "interval.more (narrow st byte) = interval.more st"
  by (simp_all add: narrow_def Let_def)

lemma narrow_enc_fields [simp]:
  "digitsToAdd (narrow st byte) = digitsToAdd st"
  "digitsToAddHiMsd (narrow st byte) = digitsToAddHiMsd st"
  "bytesEncoded (narrow st byte) = bytesEncoded st"
  "result (narrow st byte) = result st"
  by (simp_all add: narrow_def Let_def)

lemma concat_replicate_single: "concat (replicate n [x]) = replicate n x"
  by (induction n) simp_all

lemma add_loop_if:
  "(if 0 < n then add_loop n c sb else Inr sb) = add_loop n c sb"
  by (cases n) simp_all

lemma enc_digits_pdigits:
  fixes m s :: int
  assumes "0 < s" "2 \<le> int (length tab)" "m = s * int (length tab)"
  shows "0 \<le> lo st \<Longrightarrow> lo st \<le> hi st \<Longrightarrow> hi st < m * int (length tab) \<Longrightarrow>
     pdigits n (int (length tab)) m s (lo st) (hi st) (digitsToAdd st) (digitsToAddHiMsd st)
       = (ds, l', h', p', r') \<Longrightarrow>
     \<exists>st'. enc_digits n tab m s st = Inr st' \<and> lo st' = l' \<and> hi st' = h'
       \<and> digitsToAdd st' = p' \<and> digitsToAddHiMsd st' = r'
       \<and> bytesEncoded st' = bytesEncoded st
       \<and> toString (result st') = toString (result st) @ map (\<lambda>d. tab ! nat d) ds"
proof (induction n arbitrary: st ds)
  case 0
  then show ?case by simp
next
  case (Suc n)
  define b where "b = int (length tab)"
  note a = assms[folded b_def]
  have b: "0 < b" using a(2) by linarith
  have m: "0 < m" unfolding a(3) using a(1) b by simp
  note prems = Suc.prems[folded b_def]
  have l0: "0 \<le> lo st" and h0: "0 \<le> hi st" using prems by simp_all
  have r1: "js_rem (lo st) s = lo st mod s" "js_rem (hi st) s = hi st mod s"
    "js_rem (lo st) m = lo st mod m" "js_rem (hi st) m = hi st mod m"
    using l0 h0 a(1) m by (simp_all add: js_rem_nonneg)
  have "0 \<le> lo st div s" "0 \<le> hi st div s"
    using l0 h0 a(1) by (simp_all add: pos_imp_zdiv_nonneg_iff)
  then have r2: "js_rem (lo st div s) b = (lo st div s) mod b"
    "js_rem (hi st div s) b = (hi st div s) mod b"
    using b by (simp_all add: js_rem_nonneg)
  from prems(4) show ?case
  proof (cases rule: pdigits_cases)
    case deferred
    note f = defer_facts[OF a prems(1,3) deferred(1-3)]
    define st1 where "st1 = st\<lparr>lo := lo st div m * m + lo st mod s * b,
        hi := hi st div m * m + hi st mod s * b,
        digitsToAdd := digitsToAdd st + 1, digitsToAddHiMsd := hi st div m\<rparr>"
    have e: "enc_digits (Suc n) tab m s st = enc_digits n tab m s st1"
      using deferred(1-3) by (simp add: Let_def r1 r2 b_def[symmetric] st1_def)
    have p1: "pdigits n (int (length tab)) m s (lo st1) (hi st1) (digitsToAdd st1)
        (digitsToAddHiMsd st1) = (ds, l', h', p', r')"
      using deferred(4) by (simp add: st1_def b_def)
    have "0 \<le> lo st1" "lo st1 \<le> hi st1" "hi st1 < m * int (length tab)"
      using f(1-3) by (simp_all add: st1_def b_def)
    from Suc.IH[OF this p1] show ?thesis unfolding e by (simp add: st1_def)
  next
    case (settled ds1 x)
    note f = settle_facts[OF m b prems(1-3) settled(2)]
    from settled(4) have x: "x = (l', h', p', r')"
      and ds: "ds = hi st div m # replicate (digitsToAdd st)
          (if hi st div m = digitsToAddHiMsd st then 0 else b - 1) @ ds1" by simp_all
    have hm: "0 \<le> hi st div m" "hi st div m < b" using msd_bounds[OF m h0 prems(3)] by simp_all
    define c where "c = (if hi st div m = digitsToAddHiMsd st then 0 else b - 1)"
    have c: "0 \<le> c" "c < b" using b by (simp_all add: c_def)
    obtain q1 where q1: "add (result st) (Some [tab ! nat (hi st div m)]) = Inr q1"
      using add_Some by blast
    obtain q2 where q2: "add_loop (digitsToAdd st) (Some [tab ! nat c]) q1 = Inr q2"
      "toString q2 = toString q1 @ concat (replicate (digitsToAdd st) [tab ! nat c])"
      using add_loop_Some by blast
    define st1 where "st1 = st\<lparr>lo := lo st mod m * b, hi := hi st mod m * b,
        result := q2, digitsToAdd := 0\<rparr>"
    have ai: "at_index tab (hi st div m) = Some [tab ! nat (hi st div m)]"
      "at_index tab c = Some [tab ! nat c]"
      using hm c by (simp_all add: at_index_Some b_def)
    have e: "enc_digits (Suc n) tab m s st = enc_digits n tab m s st1"
      using settled(1,2) q1 q2(1)
      by (simp add: Let_def r1 b_def[symmetric] c_def[symmetric] ai add_loop_if st1_def)
    have p1: "pdigits n (int (length tab)) m s (lo st1) (hi st1) (digitsToAdd st1)
        (digitsToAddHiMsd st1) = (ds1, l', h', p', r')"
      using settled(3) x by (simp add: st1_def b_def)
    have "0 \<le> lo st1" "lo st1 \<le> hi st1" "hi st1 < m * int (length tab)"
      using f(1-3) by (simp_all add: st1_def b_def)
    from Suc.IH[OF this p1] obtain st' where st': "enc_digits n tab m s st1 = Inr st'"
      "lo st' = l'" "hi st' = h'" "digitsToAdd st' = p'" "digitsToAddHiMsd st' = r'"
      "bytesEncoded st' = bytesEncoded st1"
      "toString (result st') = toString (result st1) @ map (\<lambda>d. tab ! nat d) ds1"
      by blast
    have "toString (result st1) = toString (result st) @ [tab ! nat (hi st div m)]
        @ replicate (digitsToAdd st) (tab ! nat c)"
      using toString_add[OF q1] q2(2) by (simp add: st1_def concat_replicate_single)
    then have "toString (result st') = toString (result st) @ map (\<lambda>d. tab ! nat d) ds"
      using st'(7) by (simp add: ds c_def)
    then show ?thesis unfolding e using st' by (simp add: st1_def)
  next
    case stop_near
    have e: "enc_digits (Suc n) tab m s st = Inr st"
      using stop_near(1,2) by (auto simp: Let_def r1 r2 b_def[symmetric])
    from stop_near(3) show ?thesis unfolding e by simp
  next
    case stop_far
    have e: "enc_digits (Suc n) tab m s st = Inr st"
      using stop_far(1,2) by (auto simp: Let_def r1 r2 b_def[symmetric])
    from stop_far(3) show ?thesis unfolding e by simp
  qed
qed


lemma pbyte_boundary:
  fixes b m s :: int
  assumes "2 \<le> b" "b \<le> 256" "calculateParams b = Some (m, s, E, D)"
    and "boundary b m s l h p r" "0 \<le> byte" "byte \<le> 255"
    and "pdigits E b m s (l + ceil256 ((h - l + 1) * byte))
           (l + (ceil256 ((h - l + 1) * (byte + 1)) - 1)) p r = (ds, l', h', p', r')"
  shows "boundary b m s l' h' p' r'"
    and "l \<le> l + ceil256 ((h - l + 1) * byte)"
    and "l + ceil256 ((h - l + 1) * byte) \<le> l + (ceil256 ((h - l + 1) * (byte + 1)) - 1)"
    and "l + (ceil256 ((h - l + 1) * (byte + 1)) - 1) \<le> h"
    and "\<forall>d\<in>set ds. 0 \<le> d \<and> d < b"
proof -
  note pf = params_facts[OF assms(1-3)]
  have m: "0 < m" using pf(1,2) assms(1) by simp
  define nl where "nl = l + ceil256 ((h - l + 1) * byte)"
  define nh where "nh = l + (ceil256 ((h - l + 1) * (byte + 1)) - 1)"
  define c where "c = (s + 2) div 256 - 1"
  from assms(4) have bd: "0 \<le> l" "l \<le> h" "h < m * b" "s + 1 \<le> h - l"
    "0 < p \<longrightarrow> h div m = r \<and> l div m = r - 1"
    by (simp_all add: boundary_def)
  note nb = narrow_bounds[OF bd(2) assms(5,6) refl, folded nl_def nh_def]
  have "(s + 2) div 256 \<le> (h - l + 1) div 256" using bd(4) by (intro zdiv_mono1) simp_all
  then have w: "c \<le> nh - nl" using nb(3) unfolding c_def by linarith
  have "256 * ((s + 2) div 256) + 256 > s + 2" using div256_bounds(2)[of "s + 2"] by simp
  then have c0: "0 \<le> c" using pf(3) unfolding c_def by linarith
  show n1: "l \<le> nl" by (rule nb(1))
  show n2: "nl \<le> nh" using w c0 by linarith
  show n3: "nh \<le> h" by (rule nb(2))
  have nl0: "0 \<le> nl" using n1 bd(1) by simp
  have nhb: "nh < m * b" using n3 bd(3) by simp
  note pd = assms(7)[folded nl_def nh_def]
  from pdigits_interval[OF pf(1) assms(1) pf(2) nl0 n2 nhb pd]
  have iv: "0 \<le> l'" "l' \<le> h'" "h' < m * b" and dg: "\<forall>d\<in>set ds. 0 \<le> d \<and> d < b" by simp_all
  show "\<forall>d\<in>set ds. 0 \<le> d \<and> d < b" by (rule dg)
  from pf(5) obtain Q where Q: "m = b ^ E * Q" "Q \<le> c + 1" unfolding c_def by blast
  have G0: "0 < b ^ E" using assms(1) by simp
  have "1 * c \<le> nh - nl" using w by simp
  from pdigits_boundary[OF pf(1) assms(1) pf(2) Q(1) G0 Q(2) pf(6)[folded c_def] nl0 n2 nhb _ _ this _ _ pd]
  have wf: "s + 1 \<le> h' - l'" "l' div m < h' div m \<or> l' mod m = 0" by simp_all
  obtain E' where E': "E = Suc E'" using pf(7) by (cases E) simp_all
  have "0 < p \<longrightarrow> r - 1 \<le> nl div m \<and> nh div m \<le> r"
    using bd(5) zdiv_mono1[OF n1 m] zdiv_mono1[OF n3 m] by auto
  from pdigits_pending_weak[OF pf(1) assms(1) pf(2) nl0 n2 nhb this pd[unfolded E']]
  have "0 < p' \<longrightarrow> h' div m = r' \<and> l' div m = r' - 1" .
  then show "boundary b m s l' h' p' r'" using iv wf by (simp add: boundary_def)
qed

lemma boundary_init:
  fixes b m s :: int
  assumes "2 \<le> b" "b \<le> 256" "calculateParams b = Some (m, s, E, D)"
  shows "boundary b m s 0 (m * b - 1) 0 0"
proof -
  note pf = params_facts[OF assms(1-3)]
  have "4 \<le> b * b" using assms(1) mult_mono[of 2 b 2 b] by simp
  then have "s * 4 \<le> s * (b * b)" using pf(1) by (intro mult_left_mono) simp_all
  moreover have "m * b = s * (b * b)" using pf(2) by (simp add: algebra_simps)
  ultimately have "s + 1 \<le> m * b - 1 - 0" using pf(1) by linarith
  then show ?thesis using pf(1) by (simp add: boundary_def)
qed


lemma enc_bytes_pbytes:
  fixes m s :: int
  assumes "2 \<le> int (length tab)" "int (length tab) \<le> 256"
    "calculateParams (int (length tab)) = Some (m, s, E, D)"
  shows "boundary (int (length tab)) m s (lo st) (hi st) (digitsToAdd st) (digitsToAddHiMsd st)
    \<Longrightarrow> \<forall>byte\<in>set bytes. 0 \<le> byte \<and> byte \<le> 255
    \<Longrightarrow> pbytes E (int (length tab)) m s bytes (lo st) (hi st) (digitsToAdd st)
          (digitsToAddHiMsd st) = (ds, l', h', p', r')
    \<Longrightarrow> \<exists>st'. enc_bytes tab m s E bytes st = Inr st' \<and> lo st' = l' \<and> hi st' = h'
       \<and> digitsToAdd st' = p' \<and> digitsToAddHiMsd st' = r'
       \<and> bytesEncoded st' = bytesEncoded st + length bytes
       \<and> toString (result st') = toString (result st) @ map (\<lambda>d. tab ! nat d) ds
       \<and> boundary (int (length tab)) m s l' h' p' r'
       \<and> (\<forall>d\<in>set ds. 0 \<le> d \<and> d < int (length tab))"
proof (induction bytes arbitrary: st ds)
  case Nil
  then show ?case by simp
next
  case (Cons byte bytes)
  define b where "b = int (length tab)"
  note a = assms[folded b_def]
  note pf = params_facts[OF a]
  from Cons.prems(2) have byr: "0 \<le> byte" "byte \<le> 255"
    and rest: "\<forall>byte\<in>set bytes. 0 \<le> byte \<and> byte \<le> 255" by simp_all
  obtain ds1 l1 h1 p1 r1 where d1: "pdigits E b m s (lo st + ceil256 ((hi st - lo st + 1) * byte))
      (lo st + (ceil256 ((hi st - lo st + 1) * (byte + 1)) - 1)) (digitsToAdd st)
      (digitsToAddHiMsd st) = (ds1, l1, h1, p1, r1)"
    by (metis prod_cases5)
  obtain ds2 x2 where d2: "pbytes E b m s bytes l1 h1 p1 r1 = (ds2, x2)"
    by (metis surj_pair)
  from Cons.prems(3) d1 d2 have x2: "x2 = (l', h', p', r')" and ds: "ds = ds1 @ ds2"
    by (simp_all add: b_def)
  note pb = pbyte_boundary[OF a Cons.prems(1)[folded b_def] byr d1]
  have nl0: "0 \<le> lo (narrow st byte)" using pb(2) Cons.prems(1) by (simp add: boundary_def)
  have nlh: "lo (narrow st byte) \<le> hi (narrow st byte)" using pb(3) by simp
  have nhb: "hi (narrow st byte) < m * int (length tab)"
    using pb(4) Cons.prems(1) by (simp add: boundary_def)
  have d1': "pdigits E (int (length tab)) m s (lo (narrow st byte)) (hi (narrow st byte))
      (digitsToAdd (narrow st byte)) (digitsToAddHiMsd (narrow st byte)) = (ds1, l1, h1, p1, r1)"
    using d1 by (simp add: b_def)
  from enc_digits_pdigits[OF pf(1) assms(1) pf(2)[unfolded b_def] nl0 nlh nhb d1']
  obtain st1 where st1: "enc_digits E tab m s (narrow st byte) = Inr st1"
    "lo st1 = l1" "hi st1 = h1" "digitsToAdd st1 = p1" "digitsToAddHiMsd st1 = r1"
    "bytesEncoded st1 = bytesEncoded st"
    "toString (result st1) = toString (result st) @ map (\<lambda>d. tab ! nat d) ds1"
    by auto
  define st2 where "st2 = st1\<lparr>bytesEncoded := bytesEncoded st1 + 1\<rparr>"
  have eb: "enc_byte tab m s E st byte = Inr st2" using st1(1) by (simp add: enc_byte_def st2_def)
  have bd2: "boundary (int (length tab)) m s (lo st2) (hi st2) (digitsToAdd st2) (digitsToAddHiMsd st2)"
    using pb(1) st1(2-5) by (simp add: st2_def b_def)
  have pb2: "pbytes E (int (length tab)) m s bytes (lo st2) (hi st2) (digitsToAdd st2)
      (digitsToAddHiMsd st2) = (ds2, l', h', p', r')"
    using d2 x2 st1(2-5) by (simp add: st2_def b_def)
  from Cons.IH[OF bd2 rest pb2] obtain st' where st': "enc_bytes tab m s E bytes st2 = Inr st'"
    "lo st' = l'" "hi st' = h'" "digitsToAdd st' = p'" "digitsToAddHiMsd st' = r'"
    "bytesEncoded st' = bytesEncoded st2 + length bytes"
    "toString (result st') = toString (result st2) @ map (\<lambda>d. tab ! nat d) ds2"
    "boundary (int (length tab)) m s l' h' p' r'"
    "\<forall>d\<in>set ds2. 0 \<le> d \<and> d < int (length tab)"
    by blast
  have "enc_bytes tab m s E (byte # bytes) st = Inr st'" using eb st'(1) by simp
  moreover have "bytesEncoded st' = bytesEncoded st + length (byte # bytes)"
    using st'(6) st1(6) by (simp add: st2_def)
  moreover have "toString (result st') = toString (result st) @ map (\<lambda>d. tab ! nat d) ds"
    using st'(7) st1(7) by (simp add: st2_def ds)
  moreover have "\<forall>d\<in>set ds. 0 \<le> d \<and> d < int (length tab)"
    using st'(9) pb(5) by (auto simp: ds b_def)
  ultimately show ?case using st'(2-5,8) by blast
qed

lemma encode_digits:
  fixes m s :: int
  assumes "new_Encoder alphabet = Inr enc"
    and "\<forall>byte\<in>set bytes. 0 \<le> byte \<and> byte \<le> 255"
    and "calculateParams (int (length alphabet)) = Some (m, s, E, D)"
    and "pbytes E (int (length alphabet)) m s bytes 0 (m * int (length alphabet) - 1) 0 0
           = (ds, l, h, p, r)"
  shows "\<exists>st. enc_bytes alphabet m s E bytes (enc_init m (int (length alphabet))) = Inr st
           \<and> lo st = l \<and> hi st = h \<and> digitsToAdd st = p \<and> bytesEncoded st = length bytes
           \<and> toString (result st) = map (\<lambda>d. alphabet ! nat d) ds"
    and "encode enc bytes = Some (Inr (map (\<lambda>d. alphabet ! nat d)
           (ds @ [h div m] @ replicate p 0 @ [int (length bytes mod 2)])))"
    and "boundary (int (length alphabet)) m s l h p r"
    and "\<forall>d\<in>set ds. 0 \<le> d \<and> d < int (length alphabet)"
proof -
  define b where "b = int (length alphabet)"
  have tab: "encodingTable enc = alphabet" and len: "2 \<le> b" "b \<le> 256"
    using assms(1) by (auto simp: new_Encoder_def MIN_ALPHABET_SIZE_def MAX_ALPHABET_SIZE_def b_def
        split: if_splits)
  note pf = params_facts[OF len assms(3)[folded b_def]]
  have m: "0 < m" using pf(1,2) len by simp
  define st0 where "st0 = enc_init m b"
  have f0: "lo st0 = 0" "hi st0 = m * b - 1" "digitsToAdd st0 = 0" "digitsToAddHiMsd st0 = 0"
    "bytesEncoded st0 = 0" "toString (result st0) = []"
    by (simp_all add: st0_def enc_init_def new_StringBuilder_def toString_def)
  have bd0: "boundary (int (length alphabet)) m s (lo st0) (hi st0) (digitsToAdd st0)
      (digitsToAddHiMsd st0)"
    using boundary_init[OF len assms(3)[folded b_def]] by (simp add: f0 b_def)
  have pb0: "pbytes E (int (length alphabet)) m s bytes (lo st0) (hi st0) (digitsToAdd st0)
      (digitsToAddHiMsd st0) = (ds, l, h, p, r)"
    using assms(4) by (simp add: f0 b_def)
  from enc_bytes_pbytes[OF len[unfolded b_def] assms(3) bd0 assms(2) pb0]
  obtain st where st: "enc_bytes alphabet m s E bytes st0 = Inr st" "lo st = l" "hi st = h"
    "digitsToAdd st = p" "digitsToAddHiMsd st = r"
    "bytesEncoded st = bytesEncoded st0 + length bytes"
    "toString (result st) = toString (result st0) @ map (\<lambda>d. alphabet ! nat d) ds"
    "boundary (int (length alphabet)) m s l h p r"
    "\<forall>d\<in>set ds. 0 \<le> d \<and> d < int (length alphabet)"
    by blast
  show "boundary (int (length alphabet)) m s l h p r" by (rule st(8))
  show "\<forall>d\<in>set ds. 0 \<le> d \<and> d < int (length alphabet)" by (rule st(9))
  show "\<exists>st. enc_bytes alphabet m s E bytes (enc_init m (int (length alphabet))) = Inr st
           \<and> lo st = l \<and> hi st = h \<and> digitsToAdd st = p \<and> bytesEncoded st = length bytes
           \<and> toString (result st) = map (\<lambda>d. alphabet ! nat d) ds"
    using st f0 by (auto simp: st0_def b_def)
  from st(8) have bd: "0 \<le> l" "l \<le> h" "h < m * b" by (simp_all add: boundary_def b_def)
  have hm: "0 \<le> h div m" "h div m < b" using msd_bounds[OF m _ bd(3)] bd by simp_all
  have i1: "at_index alphabet (hi st div m) = Some [alphabet ! nat (h div m)]"
    using hm st(3) by (simp add: at_index_Some b_def)
  have "0 < int (length alphabet)" using len unfolding b_def by linarith
  then have i2: "at_index alphabet 0 = Some [alphabet ! nat 0]"
    by (intro at_index_Some) simp_all
  have "int (length bytes mod 2) < 2" by simp
  then have "int (length bytes mod 2) < int (length alphabet)" using len unfolding b_def by linarith
  then have i3: "at_index alphabet (int (bytesEncoded st mod 2))
      = Some [alphabet ! nat (int (length bytes mod 2))]"
    using st(6) f0 by (simp add: at_index_Some)
  obtain q1 where q1: "add (result st) (Some [alphabet ! nat (h div m)]) = Inr q1"
    using add_Some by blast
  obtain q2 where q2: "add_loop p (Some [alphabet ! nat 0]) q1 = Inr q2"
    "toString q2 = toString q1 @ concat (replicate p [alphabet ! nat 0])"
    using add_loop_Some by blast
  obtain q3 where q3: "add q2 (Some [alphabet ! nat (int (length bytes mod 2))]) = Inr q3"
    using add_Some by blast
  have fin: "enc_finish alphabet m st = Inr (toString q3)"
    unfolding enc_finish_def i1 i2 i3 st(4) add_loop_if using q1 q2(1) q3 by simp
  have "toString q3 = map (\<lambda>d. alphabet ! nat d)
      (ds @ [h div m] @ replicate p 0 @ [int (length bytes mod 2)])"
    using toString_add[OF q3] q2(2) toString_add[OF q1] st(7) f0(6)
    by (simp add: concat_replicate_single)
  then show "encode enc bytes = Some (Inr (map (\<lambda>d. alphabet ! nat d)
           (ds @ [h div m] @ replicate p 0 @ [int (length bytes mod 2)])))"
    using fin st(1) by (simp add: encode_def tab assms(3) st0_def b_def)
qed


lemma V_bounds:
  fixes b :: int
  assumes "1 \<le> b" "\<forall>i. 0 \<le> t i \<and> t i < b"
  shows "0 \<le> V t b a n \<and> V t b a n < b ^ n"
proof (induction n)
  case 0
  then show ?case by simp
next
  case (Suc n)
  have t: "0 \<le> t (a + n)" "t (a + n) \<le> b - 1" using assms(2)[rule_format, of "a + n"] by simp_all
  have "0 \<le> V t b a n * b" using Suc assms(1) by simp
  moreover have "(V t b a n + 1) * b \<le> b ^ n * b" using Suc assms(1) by (intro mult_right_mono) simp_all
  then have "V t b a n * b + b \<le> b ^ Suc n" by (simp add: algebra_simps)
  ultimately show ?case using t by simp
qed

lemma V_front: "V t b a (Suc n) = t a * b ^ n + V t b (Suc a) n"
proof (induction n)
  case 0
  then show ?case by simp
next
  case (Suc n)
  have "V t b a (Suc (Suc n)) = V t b a (Suc n) * b + t (a + Suc n)" by simp
  also have "\<dots> = (t a * b ^ n + V t b (Suc a) n) * b + t (a + Suc n)" by (simp only: Suc)
  also have "\<dots> = t a * b ^ Suc n + V t b (Suc a) (Suc n)" by (simp add: algebra_simps)
  finally show ?case .
qed

lemma V_zero: "\<forall>i\<ge>a. t i = 0 \<Longrightarrow> V t b a n = 0"
  by (induction n) simp_all

text \<open>The two updates of the digit accumulator\<close>

lemma W_plain:
  fixes b :: int
  assumes "2 \<le> b" "\<forall>i. 0 \<le> t i \<and> t i < b" "2 \<le> D"
  shows "(W t b D a p mod b ^ (D - 1)) * b + t (a + p + D) = W t b D (a + 1 + p) 0"
proof -
  obtain n where D: "D = Suc n" using assms(3) by (cases D) simp_all
  have vb: "0 \<le> V t b (a + 1 + p) n" "V t b (a + 1 + p) n < b ^ n"
    using V_bounds[of b t "a + 1 + p" n] assms by simp_all
  have "W t b D a p = b ^ n * t a + V t b (a + 1 + p) n" by (simp add: W_def D)
  from int_mod_pos_eq[OF this vb] have "W t b D a p mod b ^ n = V t b (a + 1 + p) n" .
  moreover have "W t b D (a + 1 + p) 0 = t (a + 1 + p) * b ^ n + V t b (Suc (a + 1 + p)) n"
    by (simp add: W_def D)
  then have "W t b D (a + 1 + p) 0 = V t b (a + 1 + p) (Suc n)"
    by (simp only: V_front[symmetric])
  moreover have "a + 1 + p + n = a + p + D" by (simp add: D)
  ultimately show ?thesis by (simp add: D)
qed

lemma W_keep:
  fixes b :: int
  assumes "2 \<le> b" "\<forall>i. 0 \<le> t i \<and> t i < b" "3 \<le> D"
  shows "(W t b D a p div b ^ (D - 1)) * b ^ (D - 1) + (W t b D a p mod b ^ (D - 2)) * b
           + t (a + p + D) = W t b D a (p + 1)"
proof -
  obtain n where D: "D = Suc (Suc n)" using assms(3) by (cases D; cases "D - 1") simp_all
  have vb: "0 \<le> V t b (a + 1 + p) (Suc n)" "V t b (a + 1 + p) (Suc n) < b ^ Suc n"
    using V_bounds[of b t "a + 1 + p" "Suc n"] assms by simp_all
  have vb2: "0 \<le> V t b (a + 2 + p) n" "V t b (a + 2 + p) n < b ^ n"
    using V_bounds[of b t "a + 2 + p" n] assms by simp_all
  have w: "W t b D a p = b ^ Suc n * t a + V t b (a + 1 + p) (Suc n)" by (simp add: W_def D)
  from int_div_pos_eq[OF w vb] have d: "W t b D a p div b ^ Suc n = t a" .
  have "W t b D a p = b ^ n * (t a * b + t (a + 1 + p)) + V t b (a + 2 + p) n"
    unfolding w V_front by (simp add: algebra_simps)
  from int_mod_pos_eq[OF this vb2] have r: "W t b D a p mod b ^ n = V t b (a + 2 + p) n" .
  have "W t b D a (p + 1) = t a * b ^ Suc n + (V t b (a + 2 + p) n * b + t (a + 2 + p + n))"
    by (simp add: W_def D)
  moreover have "a + 2 + p + n = a + p + D" by (simp add: D)
  ultimately show ?thesis using d r by (simp add: D)
qed

lemma W_nonneg:
  fixes b :: int
  assumes "2 \<le> b" "\<forall>i. 0 \<le> t i \<and> t i < b"
  shows "0 \<le> W t b D a p"
proof -
  have "0 \<le> V t b (a + 1 + p) (D - 1)" using V_bounds[of b t] assms by simp
  moreover have "0 \<le> t a * b ^ (D - 1)" using assms by simp
  ultimately show ?thesis by (simp add: W_def)
qed


lemma new_Encoder_Inr:
  assumes "new_Encoder alphabet = Inr enc"
  shows "encodingTable enc = alphabet" "2 \<le> int (length alphabet)" "int (length alphabet) \<le> 256"
  using assms
  by (auto simp: new_Encoder_def MIN_ALPHABET_SIZE_def MAX_ALPHABET_SIZE_def split: if_splits)


section \<open>The decoder follows the encoder\<close>

lemma pdigits_near_no_settle:
  fixes b m s :: int
  assumes "0 < s" "2 \<le> b" "m = s * b"
  shows "0 \<le> l \<Longrightarrow> h < m * b \<Longrightarrow> h div m - l div m = 1
    \<Longrightarrow> pdigits n b m s l h p r = (ds, l', h', p', r') \<Longrightarrow> ds = []"
proof (induction n arbitrary: l h p r)
  case 0
  then show ?case by simp
next
  case (Suc n)
  from Suc.prems(4) show ?case
  proof (cases rule: pdigits_cases)
    case deferred
    note f = defer_facts[OF assms Suc.prems(1,2) deferred(1-3)]
    have "(h div m * m + h mod s * b) div m - (l div m * m + l mod s * b) div m = 1"
      using f(5,6) Suc.prems(3) by simp
    from Suc.IH[OF f(1) f(3) this deferred(4)] show ?thesis .
  next
    case (settled ds1 x)
    then show ?thesis using Suc.prems(3) by simp
  next
    case stop_near
    then show ?thesis by simp
  next
    case stop_far
    then show ?thesis by simp
  qed
qed

lemma pdigits_count:
  fixes b m s :: int
  shows "pdigits n b m s l h p r = (ds, l', h', p', r')
    \<Longrightarrow> p \<le> length ds + p'
       \<and> (length ds + p' = p \<longrightarrow> ds = [] \<and> l' = l \<and> h' = h \<and> p' = p \<and> r' = r)
       \<and> (ds \<noteq> [] \<longrightarrow> p < length ds)"
proof (induction n arbitrary: l h p r ds)
  case 0
  then show ?case by simp
next
  case (Suc n)
  from Suc.prems(1) show ?case
  proof (cases rule: pdigits_cases)
    case deferred
    from Suc.IH[OF deferred(4)] show ?thesis by auto
  next
    case (settled ds1 x)
    then show ?thesis by auto
  next
    case stop_near
    then show ?thesis by simp
  next
    case stop_far
    then show ?thesis by simp
  qed
qed

lemma narrow_width_upper:
  fixes l h byte :: int
  shows "256 * ceil256 ((h - l + 1) * (byte + 1)) - 256 * ceil256 ((h - l + 1) * byte)
           \<le> (h - l + 1) + 255"
proof -
  define w where "w = h - l + 1"
  define P where "P = w * byte"
  have e: "w * (byte + 1) = P + w" by (simp add: algebra_simps P_def)
  have "256 * ceil256 (P + w) \<le> P + w + 255" by (rule ceil256_le)
  moreover have "P \<le> 256 * ceil256 P" by (rule ceil256_ge)
  ultimately have "256 * ceil256 (P + w) - 256 * ceil256 P \<le> w + 255" by linarith
  then show ?thesis unfolding w_def[symmetric] e P_def[symmetric] .
qed

lemma no_shift_two:
  fixes b m s :: int
  assumes "2 \<le> b" "b \<le> 256" "calculateParams b = Some (m, s, E, D)"
    and "boundary b m s l h p r"
    and "0 \<le> byte1" "byte1 \<le> 255" "0 \<le> byte2" "byte2 \<le> 255"
    and "\<forall>y\<in>set rest. 0 \<le> y \<and> y \<le> 255"
    and "pbytes E b m s (byte1 # byte2 # rest) l h p r = (ds, lf, hf, pf, rf)"
    and "length ds + pf \<le> p"
  shows False
proof -
  note pf = params_facts[OF assms(1-3)]
  obtain ds1 l1 h1 p1 r1 where d1: "pdigits E b m s (l + ceil256 ((h - l + 1) * byte1))
      (l + (ceil256 ((h - l + 1) * (byte1 + 1)) - 1)) p r = (ds1, l1, h1, p1, r1)"
    by (metis prod_cases5)
  obtain ds2 l2 h2 p2 r2 where d2: "pdigits E b m s (l1 + ceil256 ((h1 - l1 + 1) * byte2))
      (l1 + (ceil256 ((h1 - l1 + 1) * (byte2 + 1)) - 1)) p1 r1 = (ds2, l2, h2, p2, r2)"
    by (metis prod_cases5)
  obtain ds3 x3 where d3: "pbytes E b m s rest l2 h2 p2 r2 = (ds3, x3)"
    by (metis surj_pair)
  from assms(10) d1 d2 d3 have x3: "x3 = (lf, hf, pf, rf)" and ds: "ds = ds1 @ ds2 @ ds3"
    by simp_all
  note b1 = pbyte_boundary[OF assms(1-4) assms(5,6) d1]
  note b2 = pbyte_boundary[OF assms(1-3) b1(1) assms(7,8) d2]
  note c1 = pdigits_count[OF d1]
  note c2 = pdigits_count[OF d2]
  have c3: "p2 \<le> length ds3 + pf"
  proof -
    have "\<And>l h p r ds lf hf pf rf. pbytes E b m s rest l h p r = (ds, lf, hf, pf, rf)
        \<Longrightarrow> p \<le> length ds + pf"
    proof (induction rest)
      case Nil
      then show ?case by simp
    next
      case (Cons y ys)
      obtain da la ha pa ra where a: "pdigits E b m s (l + ceil256 ((h - l + 1) * y))
          (l + (ceil256 ((h - l + 1) * (y + 1)) - 1)) p r = (da, la, ha, pa, ra)"
        by (metis prod_cases5)
      obtain db xb where bb: "pbytes E b m s ys la ha pa ra = (db, xb)" by (metis surj_pair)
      from Cons.prems a bb have "xb = (lf, hf, pf, rf)" "ds = da @ db" by simp_all
      then show ?case using Cons.IH[of la ha pa ra db lf hf pf rf] bb pdigits_count[OF a] by simp
    qed
    from this[of l2 h2 p2 r2 ds3 lf hf pf rf] d3 x3 show ?thesis by simp
  qed
  have k1: "p \<le> length ds1 + p1" using c1 by simp
  have k2: "p1 \<le> length ds2 + p2" using c2 by simp
  have len: "length ds = length ds1 + length ds2 + length ds3" using ds by simp
  have e1: "length ds1 + p1 = p" and e2: "length ds2 + p2 = p1"
    using k1 k2 c3 assms(11) len by linarith+
  from c1 e1 have s1: "l1 = l + ceil256 ((h - l + 1) * byte1)"
    "h1 = l + (ceil256 ((h - l + 1) * (byte1 + 1)) - 1)" by simp_all
  from c2 e2 have s2: "l2 = l1 + ceil256 ((h1 - l1 + 1) * byte2)"
    "h2 = l1 + (ceil256 ((h1 - l1 + 1) * (byte2 + 1)) - 1)" by simp_all
  from assms(4) have w0: "0 \<le> l" "h < m * b" by (simp_all add: boundary_def)
  from b2(1) have w2: "s + 1 \<le> h2 - l2" by (simp add: boundary_def)
  have u1: "256 * h1 - 256 * l1 + 256 \<le> (h - l + 1) + 255"
    using narrow_width_upper[of h l byte1] unfolding s1 by (simp add: algebra_simps)
  have u2: "256 * h2 - 256 * l2 + 256 \<le> (h1 - l1 + 1) + 255"
    using narrow_width_upper[of h1 l1 byte2] unfolding s2 by (simp add: algebra_simps)
  have "b * b \<le> 256 * 256" using assms(1,2) by (intro mult_mono) simp_all
  then have "s * (b * b) \<le> s * 65536" using pf(1) by (intro mult_left_mono) simp_all
  moreover have "m * b = s * (b * b)" using pf(2) by (simp add: algebra_simps)
  ultimately have "h - l + 1 \<le> 65536 * s" using w0 by linarith
  then show False using u1 u2 w2 by linarith
qed

lemma settle_backward:
  fixes l h m b w :: int
  assumes "0 < m" "0 < b" "l div m = h div m" "l mod m * b \<le> w" "w \<le> h mod m * b"
  shows "l \<le> h div m * m + w div b" and "h div m * m + w div b \<le> h"
proof -
  have "(l mod m * b) div b \<le> w div b" using assms(2,4) by (intro zdiv_mono1) simp_all
  then have 1: "l mod m \<le> w div b" using assms(2) by simp
  have "w div b \<le> (h mod m * b) div b" using assms(2,5) by (intro zdiv_mono1) simp_all
  then have 2: "w div b \<le> h mod m" using assms(2) by simp
  have e: "l div m * m = h div m * m" using assms(3) by simp
  show "l \<le> h div m * m + w div b"
    using div_mod_parts(1)[OF assms(1), of l] e 1 by linarith
  show "h div m * m + w div b \<le> h"
    using div_mod_parts(1)[OF assms(1), of h] 2 by linarith
qed

lemma defer_backward:
  fixes l h m s b ta y X u :: int
  assumes "0 < s" "2 \<le> b" "m = s * b" "0 \<le> l" "h < m * b"
    "h div m - l div m = 1" "(l div s) mod b = b - 1" "(h div s) mod b = 0"
    and "0 \<le> X" "X < s" "0 \<le> u" "u < b"
    and "y = (if ta = h div m then 0 else b - 1)"
    and "l div m * m + l mod s * b \<le> ta * m + X * b + u"
    and "ta * m + X * b + u \<le> h div m * m + h mod s * b"
  shows "l \<le> ta * m + y * s + X" and "ta * m + y * s + X \<le> h"
proof -
  have b: "0 < b" using assms by simp
  have m: "0 < m" using assms b by simp
  define lm where "lm = l div m"
  define hm where "hm = h div m"
  define l0 where "l0 = l mod s"
  define h0 where "h0 = h mod s"
  have l: "l = lm * m + (m - s) + l0"
    unfolding lm_def l0_def assms(3) by (rule straddle_lo[OF assms(1) b assms(7)])
  have h: "h = hm * m + h0"
    unfolding hm_def h0_def assms(3) by (rule straddle_hi[OF assms(1) b assms(8)])
  have l0: "0 \<le> l0" "l0 < s" using assms(1) by (simp_all add: l0_def)
  have h0: "0 \<le> h0" "h0 < s" using assms(1) by (simp_all add: h0_def)
  have hl: "hm = lm + 1" using assms(6) by (simp add: hm_def lm_def)
  have hmm: "hm * m = lm * m + m" unfolding hl by (simp add: algebra_simps)
  have Xb: "0 \<le> X * b" "X * b + b \<le> m"
  proof -
    show "0 \<le> X * b" using assms(9) b by simp
    have "(X + 1) * b \<le> s * b" using assms(10) b by (intro mult_right_mono) simp_all
    then show "X * b + b \<le> m" by (simp add: assms(3) algebra_simps)
  qed
  have l0b: "0 \<le> l0 * b" "l0 * b + b \<le> m"
  proof -
    show "0 \<le> l0 * b" using l0 b by simp
    have "(l0 + 1) * b \<le> s * b" using l0 b by (intro mult_right_mono) simp_all
    then show "l0 * b + b \<le> m" by (simp add: assms(3) algebra_simps)
  qed
  have h0b: "0 \<le> h0 * b" "h0 * b + b \<le> m"
  proof -
    show "0 \<le> h0 * b" using h0 b by simp
    have "(h0 + 1) * b \<le> s * b" using h0 b by (intro mult_right_mono) simp_all
    then show "h0 * b + b \<le> m" by (simp add: assms(3) algebra_simps)
  qed
  note lw = assms(14)[folded lm_def l0_def]
  note uw = assms(15)[folded hm_def h0_def]
  have ge: "lm \<le> ta"
  proof (rule ccontr)
    assume "\<not> lm \<le> ta"
    then have "ta + 1 \<le> lm" by simp
    then have "(ta + 1) * m \<le> lm * m" using m by (intro mult_right_mono) simp_all
    then have "ta * m + m \<le> lm * m" by (simp add: algebra_simps)
    then show False using lw Xb assms(12) l0b by linarith
  qed
  have le: "ta \<le> hm"
  proof (rule ccontr)
    assume "\<not> ta \<le> hm"
    then have "hm + 1 \<le> ta" by simp
    then have "(hm + 1) * m \<le> ta * m" using m by (intro mult_right_mono) simp_all
    then have "hm * m + m \<le> ta * m" by (simp add: algebra_simps)
    then show False using uw Xb assms(11) h0b b by linarith
  qed
  consider "ta = hm" | "ta = lm" using ge le hl by linarith
  then have "l \<le> ta * m + y * s + X \<and> ta * m + y * s + X \<le> h"
  proof cases
    case 1
    then have y: "y * s = 0" using assms(13) by (simp add: hm_def)
    have "X * b \<le> h0 * b" using uw[unfolded 1] assms(11) by linarith
    then have "X \<le> h0" using b by simp
    then show ?thesis unfolding y 1 using l h hmm l0 assms(9) by linarith
  next
    case 2
    then have "ta \<noteq> h div m" using hl by (simp add: hm_def)
    then have "y * s = (b - 1) * s" using assms(13) by simp
    then have y: "y * s = m - s" by (simp add: assms(3) algebra_simps)
    have "l0 * b < X * b + b" using lw[unfolded 2] assms(12) by linarith
    then have "l0 * b < (X + 1) * b" by (simp add: algebra_simps)
    then have "l0 < X + 1" using b by (simp add: mult_less_cancel_right)
    then show ?thesis unfolding y 2 using l h hmm h0 assms(10) by linarith
  qed
  then show "l \<le> ta * m + y * s + X" and "ta * m + y * s + X \<le> h" by simp_all
qed

lemma W_settle_step:
  fixes b :: int
  assumes "2 \<le> b" "2 \<le> D" "\<forall>i. 0 \<le> t i \<and> t i < b"
  shows "W t b D a p = t a * b ^ (D - 1) + W t b D (a + 1 + p) 0 div b"
proof -
  obtain n where D: "D = Suc n" using assms(2) by (cases D) simp_all
  have "W t b D (a + 1 + p) 0 = t (a + 1 + p) * b ^ n + V t b (Suc (a + 1 + p)) n"
    by (simp add: W_def D)
  then have "W t b D (a + 1 + p) 0 = V t b (a + 1 + p) (Suc n)"
    by (simp only: V_front[symmetric])
  then have "W t b D (a + 1 + p) 0 = b * V t b (a + 1 + p) n + t (a + 1 + p + n)" by simp
  from int_div_pos_eq[OF this] assms(3)
  have "W t b D (a + 1 + p) 0 div b = V t b (a + 1 + p) n" by simp
  then show ?thesis by (simp add: W_def D)
qed

lemma W_defer_parts:
  fixes b :: int
  assumes "3 \<le> D"
  shows "W t b D a p = t a * b ^ (D - 1) + t (a + 1 + p) * b ^ (D - 2) + V t b (a + 2 + p) (D - 2)"
    and "W t b D a (p + 1) = t a * b ^ (D - 1) + V t b (a + 2 + p) (D - 2) * b + t (a + p + D)"
proof -
  obtain n where D: "D = Suc (Suc n)" using assms by (cases D; cases "D - 1") simp_all
  have "V t b (a + 1 + p) (Suc n) = t (a + 1 + p) * b ^ n + V t b (Suc (a + 1 + p)) n"
    by (rule V_front)
  then show "W t b D a p = t a * b ^ (D - 1) + t (a + 1 + p) * b ^ (D - 2) + V t b (a + 2 + p) (D - 2)"
    by (simp add: W_def D)
  have "a + 2 + p + n = a + p + D" by (simp add: D)
  then show "W t b D a (p + 1) = t a * b ^ (D - 1) + V t b (a + 2 + p) (D - 2) * b + t (a + p + D)"
    by (simp add: W_def D)
qed

lemma consistent_pdigits:
  fixes b m s :: int
  assumes "2 \<le> b" "3 \<le> D" "m = b ^ (D - 1)" "s = b ^ (D - 2)" "\<forall>i. 0 \<le> t i \<and> t i < b"
  shows "0 \<le> l \<Longrightarrow> l \<le> h \<Longrightarrow> h < m * b \<Longrightarrow> (0 < p \<longrightarrow> r - 1 \<le> l div m \<and> h div m \<le> r)
    \<Longrightarrow> pdigits n b m s l h p r = (ds, l', h', p', r')
    \<Longrightarrow> (\<forall>i<length ds. t (a + i) = ds ! i)
    \<Longrightarrow> consistent t b D (a + length ds) l' h' p' r'
    \<Longrightarrow> consistent t b D a l h p r"
proof (induction n arbitrary: l h p r ds a)
  case 0
  then show ?case by simp
next
  case (Suc n)
  obtain k where D: "D = Suc (Suc k)" using assms(2) by (cases D; cases "D - 1") simp_all
  have b: "0 < b" using assms(1) by simp
  have s: "0 < s" using b assms(4) by simp
  have msb: "m = s * b" using assms(3,4) by (simp add: D)
  have m: "0 < m" using s b msb by simp
  from Suc.prems(5) show ?case
  proof (cases rule: pdigits_cases)
    case deferred
    note f = defer_facts[OF s assms(1) msb Suc.prems(1,3) deferred(1-3)]
    have pw: "0 < p + 1 \<longrightarrow> h div m - 1 \<le> (l div m * m + l mod s * b) div m
        \<and> (h div m * m + h mod s * b) div m \<le> h div m"
      using f(5,6) deferred(1) by simp
    from Suc.IH[OF f(1) f(2) f(3) pw deferred(4) Suc.prems(6) Suc.prems(7)]
    have c: "l div m * m + l mod s * b \<le> W t b D a (p + 1)"
      "W t b D a (p + 1) \<le> h div m * m + h mod s * b"
      "\<forall>q<p + 1. t (a + 1 + q) = (if t a = h div m then 0 else b - 1)"
      by (simp_all add: consistent_def)
    note wp = W_defer_parts[OF assms(2), of t b a p, folded assms(3,4)]
    define X where "X = V t b (a + 2 + p) (D - 2)"
    have X: "0 \<le> X" "X < s" using V_bounds[of b t "a + 2 + p" "D - 2"] assms(1,5)
      by (simp_all add: X_def assms(4))
    have u: "0 \<le> t (a + p + D)" "t (a + p + D) < b" using assms(5) by simp_all
    have y: "t (a + 1 + p) = (if t a = h div m then 0 else b - 1)" using c(3) by simp
    from defer_backward[OF s assms(1) msb Suc.prems(1,3) deferred(1-3) X u y
        c(1)[unfolded wp(2), folded X_def] c(2)[unfolded wp(2), folded X_def]]
    have w: "l \<le> W t b D a p" "W t b D a p \<le> h" unfolding wp(1) X_def by simp_all
    have "\<forall>q<p. t (a + 1 + q) = (if t a = r then 0 else b - 1)"
    proof (cases "0 < p")
      case True
      then have "r = h div m" using Suc.prems(4) deferred(1) by simp
      then show ?thesis using c(3) by simp
    next
      case False
      then show ?thesis by simp
    qed
    then show ?thesis using w by (simp add: consistent_def)
  next
    case (settled ds1 x)
    note f = settle_facts[OF m b Suc.prems(1-3) settled(2)]
    from settled(4) have x: "x = (l', h', p', r')"
      and ds: "ds = h div m # replicate p (if h div m = r then 0 else b - 1) @ ds1" by simp_all
    have len: "a + length ds = (a + 1 + p) + length ds1" by (simp add: ds)
    have st1: "\<forall>i<length ds1. t ((a + 1 + p) + i) = ds1 ! i"
    proof (intro allI impI)
      fix i assume i: "i < length ds1"
      then have "Suc (p + i) < length ds" by (simp add: ds)
      then have "t (a + Suc (p + i)) = ds ! Suc (p + i)" using Suc.prems(6) by blast
      also have "\<dots> = ds1 ! i" by (simp add: ds nth_append)
      finally show "t ((a + 1 + p) + i) = ds1 ! i" by (simp add: add.assoc)
    qed
    have "(0::nat) < 0 \<longrightarrow> r - 1 \<le> (l mod m * b) div m \<and> (h mod m * b) div m \<le> r" by simp
    from Suc.IH[OF f(1) f(2) f(3) this settled(3)[unfolded x] st1 Suc.prems(7)[unfolded len]]
    have c: "l mod m * b \<le> W t b D (a + 1 + p) 0" "W t b D (a + 1 + p) 0 \<le> h mod m * b"
      by (simp_all add: consistent_def)
    have "0 < length ds" by (simp add: ds)
    then have "t (a + 0) = ds ! 0" using Suc.prems(6) by blast
    then have ta: "t a = h div m" by (simp add: ds)
    have "2 \<le> D" using assms(2) by simp
    note ws = W_settle_step[OF assms(1) this assms(5), of a p, folded assms(3)]
    from settle_backward[OF m b settled(2) c]
    have w: "l \<le> W t b D a p" "W t b D a p \<le> h" unfolding ws ta by simp_all
    have "\<forall>q<p. t (a + 1 + q) = (if t a = r then 0 else b - 1)"
    proof (intro allI impI)
      fix q assume q: "q < p"
      then have "Suc q < length ds" by (simp add: ds)
      then have "t (a + Suc q) = ds ! Suc q" using Suc.prems(6) by blast
      also have "\<dots> = (if h div m = r then 0 else b - 1)" using q by (simp add: ds nth_append)
      finally show "t (a + 1 + q) = (if t a = r then 0 else b - 1)" unfolding ta by simp
    qed
    then show ?thesis using w by (simp add: consistent_def)
  next
    case stop_near
    then show ?thesis using Suc.prems(7) by simp
  next
    case stop_far
    then show ?thesis using Suc.prems(7) by simp
  qed
qed

lemma future_append:
  assumes "future t a (ds1 @ ds2) x"
  shows "\<forall>i<length ds1. t (a + i) = ds1 ! i" and "future t (a + length ds1) ds2 x"
proof -
  show "\<forall>i<length ds1. t (a + i) = ds1 ! i"
  proof (intro allI impI)
    fix i assume i: "i < length ds1"
    then have "i < length (ds1 @ ds2)" by simp
    then have "t (a + i) = (ds1 @ ds2) ! i" using assms unfolding future_def by blast
    then show "t (a + i) = ds1 ! i" using i by (simp add: nth_append)
  qed
  have "\<forall>i<length ds2. t (a + length ds1 + i) = ds2 ! i"
  proof (intro allI impI)
    fix i assume i: "i < length ds2"
    then have "length ds1 + i < length (ds1 @ ds2)" by simp
    then have "t (a + (length ds1 + i)) = (ds1 @ ds2) ! (length ds1 + i)"
      using assms unfolding future_def by blast
    then show "t (a + length ds1 + i) = ds2 ! i" by (simp add: nth_append add.assoc)
  qed
  then show "future t (a + length ds1) ds2 x"
    using assms by (simp add: future_def add.assoc)
qed

lemma consistent_final:
  fixes b m :: int
  assumes "2 \<le> b" "m = b ^ (D - 1)" "boundary b m s l h p r" "future t a [] (h div m)"
  shows "consistent t b D a l h p r"
proof -
  have m: "0 < m" using assms(1,2) by simp
  from assms(3) have bd: "l \<le> h" "l div m < h div m \<or> l mod m = 0" "0 < p \<longrightarrow> h div m = r"
    by (simp_all add: boundary_def)
  from assms(4) have ta: "t a = h div m" and z: "\<forall>i. a < i \<longrightarrow> t i = 0"
    by (simp_all add: future_def)
  have "V t b (a + 1 + p) (D - 1) = 0" using z by (intro V_zero) simp
  then have w: "W t b D a p = h div m * m" by (simp add: W_def ta assms(2))
  have le: "l div m \<le> h div m" using bd(1) m by (simp add: zdiv_mono1)
  have "l \<le> h div m * m"
  proof (cases "l mod m = 0")
    case True
    have "l div m * m \<le> h div m * m" using le m by (intro mult_right_mono) simp_all
    then show ?thesis using div_mod_parts(1)[OF m, of l] True by linarith
  next
    case False
    then have "l div m + 1 \<le> h div m" using bd(2) by simp
    then have "(l div m + 1) * m \<le> h div m * m" using m by (intro mult_right_mono) simp_all
    then have "l div m * m + m \<le> h div m * m" by (simp add: algebra_simps)
    then show ?thesis using div_mod_parts[OF m, of l] by linarith
  qed
  moreover have "h div m * m \<le> h" using div_mod_parts[OF m, of h] by linarith
  moreover have "\<forall>q<p. t (a + 1 + q) = (if t a = r then 0 else b - 1)"
    using z bd(3) ta by auto
  ultimately show ?thesis unfolding consistent_def w by simp
qed

lemma consistent_widen:
  "consistent t b D a l' h' p r \<Longrightarrow> l \<le> l' \<Longrightarrow> h' \<le> h \<Longrightarrow> consistent t b D a l h p r"
  by (auto simp: consistent_def)

lemma consistent_pbytes:
  fixes b m s :: int
  assumes "2 \<le> b" "b \<le> 256" "calculateParams b = Some (m, s, E, D)"
    and "\<forall>i. 0 \<le> t i \<and> t i < b"
  shows "boundary b m s l h p r \<Longrightarrow> \<forall>y\<in>set bs. 0 \<le> y \<and> y \<le> 255
    \<Longrightarrow> pbytes E b m s bs l h p r = (ds, lf, hf, pf, rf)
    \<Longrightarrow> future t a ds (hf div m)
    \<Longrightarrow> consistent t b D a l h p r
      \<and> (\<forall>y ys. bs = y # ys \<longrightarrow>
           consistent t b D a (l + ceil256 ((h - l + 1) * y))
             (l + (ceil256 ((h - l + 1) * (y + 1)) - 1)) p r)"
proof (induction bs arbitrary: l h p r a ds)
  case Nil
  note pf = params_facts[OF assms(1-3)]
  from Nil(3) have e: "ds = []" "lf = l" "hf = h" "pf = p" "rf = r" by simp_all
  show ?case
    using consistent_final[OF assms(1) pf(8) Nil(1)] Nil(4) by (simp add: e)
next
  case (Cons byte bs)
  note pf = params_facts[OF assms(1-3)]
  have D3: "3 \<le> D" using pf(10) by simp
  from Cons.prems(2) have byr: "0 \<le> byte" "byte \<le> 255"
    and rest: "\<forall>y\<in>set bs. 0 \<le> y \<and> y \<le> 255" by simp_all
  define nl where "nl = l + ceil256 ((h - l + 1) * byte)"
  define nh where "nh = l + (ceil256 ((h - l + 1) * (byte + 1)) - 1)"
  obtain ds1 l1 h1 p1 r1 where d1: "pdigits E b m s nl nh p r = (ds1, l1, h1, p1, r1)"
    by (metis prod_cases5)
  obtain ds2 x2 where d2: "pbytes E b m s bs l1 h1 p1 r1 = (ds2, x2)"
    by (metis surj_pair)
  from Cons.prems(3) d1 d2 have x2: "x2 = (lf, hf, pf, rf)" and ds: "ds = ds1 @ ds2"
    by (simp_all add: nl_def nh_def)
  note pb = pbyte_boundary[OF assms(1-3) Cons.prems(1) byr d1[unfolded nl_def nh_def],
      folded nl_def nh_def]
  note fa = future_append[OF Cons.prems(4)[unfolded ds]]
  from Cons.IH[OF pb(1) rest d2[unfolded x2] fa(2)]
  have c1: "consistent t b D (a + length ds1) l1 h1 p1 r1" by simp
  from Cons.prems(1) have bd: "0 \<le> l" "h < m * b"
    "0 < p \<longrightarrow> h div m = r \<and> l div m = r - 1" by (simp_all add: boundary_def)
  have nl0: "0 \<le> nl" using pb(2) bd(1) by simp
  have nhb: "nh < m * b" using pb(4) bd(2) by simp
  have pw: "0 < p \<longrightarrow> r - 1 \<le> nl div m \<and> nh div m \<le> r"
    using bd(3) zdiv_mono1[OF pb(2) pf(11)] zdiv_mono1[OF pb(4) pf(11)] by auto
  from consistent_pdigits[OF assms(1) D3 pf(8,9) assms(4) nl0 pb(3) nhb pw d1 fa(1) c1]
  have cn: "consistent t b D a nl nh p r" .
  from consistent_widen[OF cn pb(2) pb(4)] have "consistent t b D a l h p r" .
  then show ?case using cn by (simp add: nl_def nh_def)
qed

lemma take_digit_fields [simp]:
  "lo (take_digit b m s st x) = lo st"
  "hi (take_digit b m s st x) = hi st"
  "pos (take_digit b m s st x) = pos st + 1"
  "requestedDigits (take_digit b m s st x) = requestedDigits st - 1"
  "isLastDigit (take_digit b m s st x) = isLastDigit st"
  "bytesDecoded (take_digit b m s st x) = bytesDecoded st"
  "yielded (take_digit b m s st x) = yielded st"
  by (simp_all add: take_digit_def Let_def)

lemma read1_fields [simp]:
  "lo (read1 t e b m s D st) = lo st"
  "hi (read1 t e b m s D st) = hi st"
  "pos (read1 t e b m s D st) = pos st + 1"
  "requestedDigits (read1 t e b m s D st) = requestedDigits st - 1"
  "bytesDecoded (read1 t e b m s D st) = bytesDecoded st"
  "yielded (read1 t e b m s D st) = yielded st"
  "isLastDigit (read1 t e b m s D st) = (isLastDigit st \<or> int (pos st) - e = int D - 2)"
  by (simp_all add: read1_def)

lemma readn_fields:
  "lo (readn q t e b m s D st) = lo st"
  "hi (readn q t e b m s D st) = hi st"
  "pos (readn q t e b m s D st) = pos st + q"
  "requestedDigits (readn q t e b m s D st) = requestedDigits st - q"
  "bytesDecoded (readn q t e b m s D st) = bytesDecoded st"
  "yielded (readn q t e b m s D st) = yielded st"
  by (induction q arbitrary: st) simp_all

lemma readn_flag:
  "(isLastDigit st \<longleftrightarrow> e + int D - 1 \<le> int (pos st))
   \<Longrightarrow> (isLastDigit (readn q t e b m s D st) \<longleftrightarrow> e + int D - 1 \<le> int (pos st + q))"
proof (induction q arbitrary: st)
  case 0
  then show ?case by simp
next
  case (Suc q)
  have "isLastDigit (read1 t e b m s D st) \<longleftrightarrow> e + int D - 1 \<le> int (pos (read1 t e b m s D st))"
    using Suc.prems by auto
  from Suc.IH[OF this] show ?case by simp
qed

lemma read_digits_readn:
  assumes "2 \<le> D"
    and "\<forall>i. int i < e \<longrightarrow> Map_get table (encodedText ! i) = Some (nat (t i)) \<and> 0 \<le> t i"
    and "\<forall>i. e \<le> int i \<longrightarrow> t i = 0"
  shows "requestedDigits st = q
    \<Longrightarrow> read_digits encodedText table e b m s D st = Some (Inr (readn q t e b m s D st))"
proof (induction q arbitrary: st)
  case 0
  then show ?case by (subst read_digits.simps) simp
next
  case (Suc q)
  have rq: "requestedDigits (read1 t e b m s D st) = q" using Suc.prems by simp
  show ?case
  proof (cases "int (pos st) < e")
    case True
    then have g: "Map_get table (encodedText ! pos st) = Some (nat (t (pos st)))"
      and t0: "0 \<le> t (pos st)" using assms(2) by simp_all
    have ne: "int (pos st) - e \<noteq> int D - 2" using True assms(1) by linarith
    have "read_digits encodedText table e b m s D st
        = read_digits encodedText table e b m s D (read1 t e b m s D st)"
      using Suc.prems True g t0 ne
      by (subst read_digits.simps) (simp add: read1_def)
    then show ?thesis using Suc.IH[OF rq] by simp
  next
    case False
    then have z: "t (pos st) = 0" using assms(3) by simp
    have "read_digits encodedText table e b m s D st
        = read_digits encodedText table e b m s D (read1 t e b m s D st)"
      using Suc.prems False z
      by (subst read_digits.simps) (simp add: read1_def)
    then show ?thesis using Suc.IH[OF rq] by simp
  qed
qed

lemma readn_window:
  fixes b m s :: int
  assumes "2 \<le> b" "3 \<le> D" "m = b ^ (D - 1)" "s = b ^ (D - 2)" "\<forall>i. 0 \<le> t i \<and> t i < b"
  shows "digitsToDecode st = W t b D a p \<Longrightarrow> pos st = a + p + D \<Longrightarrow> requestedDigits st = q
    \<Longrightarrow> requestedDigitsKeepMsd st = k \<Longrightarrow> k \<le> q
    \<Longrightarrow> digitsToDecode (readn q t e b m s D st)
          = (if q = k then W t b D a (p + k) else W t b D (a + p + q - k) k)
        \<and> requestedDigitsKeepMsd (readn q t e b m s D st) = 0"
proof (induction q arbitrary: st a p k)
  case 0
  then show ?case by simp
next
  case (Suc q)
  have b: "0 < b" using assms(1) by simp
  have s: "0 < s" and m: "0 < m" using b assms(3,4) by simp_all
  have d0: "0 \<le> digitsToDecode st" unfolding Suc.prems(1) by (rule W_nonneg[OF assms(1,5)])
  define st0 where "st0 = (if int (pos st) - e = int D - 2 then st\<lparr>isLastDigit := True\<rparr> else st)"
  have f0: "digitsToDecode st0 = W t b D a p" "pos st0 = a + p + D" "requestedDigits st0 = Suc q"
    "requestedDigitsKeepMsd st0 = k"
    using Suc.prems by (simp_all add: st0_def)
  have r1: "read1 t e b m s D st = take_digit b m s st0 (t (a + p + D))"
    by (simp add: read1_def st0_def Suc.prems(2))
  show ?case
  proof (cases "Suc q = k")
    case True
    have "digitsToDecode (read1 t e b m s D st) = W t b D a (p + 1)"
      unfolding r1 using f0 True d0 W_keep[OF assms(1,5,2), of a p, folded assms(3,4)]
      by (simp add: take_digit_def Let_def js_rem_nonneg s Suc.prems(1))
    moreover have "pos (read1 t e b m s D st) = a + (p + 1) + D" using Suc.prems(2) by simp
    moreover have "requestedDigits (read1 t e b m s D st) = q" using Suc.prems(3) by simp
    moreover have "requestedDigitsKeepMsd (read1 t e b m s D st) = q"
      unfolding r1 using f0 True by (simp add: take_digit_def Let_def)
    ultimately have ih: "digitsToDecode (readn q t e b m s D (read1 t e b m s D st))
          = W t b D a (p + 1 + q)
        \<and> requestedDigitsKeepMsd (readn q t e b m s D (read1 t e b m s D st)) = 0"
      using Suc.IH[of "read1 t e b m s D st" a "p + 1" q] by simp
    show ?thesis unfolding True[symmetric] using ih by simp
  next
    case False
    then have kq: "k \<le> q" using Suc.prems(5) by simp
    have g1: "digitsToDecode (read1 t e b m s D st) = W t b D (a + 1 + p) 0"
      unfolding r1 using f0 False d0 W_plain[OF assms(1,5), of D a p, folded assms(3)] assms(2)
      by (simp add: take_digit_def Let_def js_rem_nonneg m Suc.prems(1))
    have g2: "pos (read1 t e b m s D st) = (a + 1 + p) + 0 + D" using Suc.prems(2) by simp
    have g3: "requestedDigits (read1 t e b m s D st) = q" using Suc.prems(3) by simp
    have g4: "requestedDigitsKeepMsd (read1 t e b m s D st) = k"
      unfolding r1 using f0 False by (simp add: take_digit_def Let_def)
    note ih = Suc.IH[OF g1 g2 g3 g4 kq]
    show ?thesis
    proof (cases "q = k")
      case qk: True
      have e: "a + p + Suc q - k = a + 1 + p" using qk by simp
      have "readn (Suc q) t e b m s D st = readn q t e b m s D (read1 t e b m s D st)" by simp
      then show ?thesis using ih False qk unfolding e by (simp del: readn.simps)
    next
      case nqk: False
      have e: "a + p + Suc q - k = a + 1 + p + 0 + q - k" using kq by simp
      have "readn (Suc q) t e b m s D st = readn q t e b m s D (read1 t e b m s D st)" by simp
      then show ?thesis using ih False nqk unfolding e by (simp del: readn.simps)
    qed
  qed
qed

lemma readn_init:
  fixes b m s :: int
  assumes "2 \<le> b" "m = b ^ (D - 1)" "\<forall>i. 0 \<le> t i \<and> t i < b"
  shows "digitsToDecode st = V t b 0 (pos st) \<Longrightarrow> requestedDigits st = q
    \<Longrightarrow> requestedDigitsKeepMsd st = 0 \<Longrightarrow> pos st + q \<le> D
    \<Longrightarrow> digitsToDecode (readn q t e b m s D st) = V t b 0 (pos st + q)
        \<and> requestedDigitsKeepMsd (readn q t e b m s D st) = 0"
proof (induction q arbitrary: st)
  case 0
  then show ?case by simp
next
  case (Suc q)
  have b: "0 < b" using assms(1) by simp
  have m: "0 < m" using b assms(2) by simp
  have vb: "0 \<le> V t b 0 (pos st)" "V t b 0 (pos st) < b ^ pos st"
    using V_bounds[of b t 0 "pos st"] assms(1,3) by simp_all
  have "pos st \<le> D - 1" using Suc.prems(4) by simp
  then have "b ^ pos st \<le> b ^ (D - 1)" using assms(1) by (intro power_increasing) simp_all
  then have lt: "V t b 0 (pos st) < m" using vb(2) assms(2) by simp
  define st0 where "st0 = (if int (pos st) - e = int D - 2 then st\<lparr>isLastDigit := True\<rparr> else st)"
  have f0: "digitsToDecode st0 = V t b 0 (pos st)" "pos st0 = pos st" "requestedDigits st0 = Suc q"
    "requestedDigitsKeepMsd st0 = 0"
    using Suc.prems by (simp_all add: st0_def)
  have r1: "read1 t e b m s D st = take_digit b m s st0 (t (pos st))"
    by (simp add: read1_def st0_def)
  have "digitsToDecode (read1 t e b m s D st) = V t b 0 (pos st) * b + t (pos st)"
    unfolding r1 using f0 vb(1) lt by (simp add: take_digit_def Let_def js_rem_nonneg m)
  then have "digitsToDecode (read1 t e b m s D st) = V t b 0 (pos (read1 t e b m s D st))"
    by simp
  moreover have "requestedDigits (read1 t e b m s D st) = q" using Suc.prems(2) by simp
  moreover have "requestedDigitsKeepMsd (read1 t e b m s D st) = 0"
    unfolding r1 using f0 by (simp add: take_digit_def Let_def)
  moreover have "pos (read1 t e b m s D st) + q \<le> D" using Suc.prems(4) by simp
  ultimately show ?case using Suc.IH[of "read1 t e b m s D st"] by simp
qed

lemma W_start: "1 \<le> D \<Longrightarrow> W t b D 0 0 = V t b 0 D"
proof -
  assume "1 \<le> D"
  then obtain n where D: "D = Suc n" by (cases D) simp_all
  have "W t b D 0 0 = t 0 * b ^ n + V t b (Suc 0) n" by (simp add: W_def D)
  then show ?thesis unfolding D by (simp only: V_front[symmetric])
qed

lemma dec_digits_pdigits:
  fixes b m s :: int
  assumes "0 < s" "2 \<le> b" "m = s * b"
  shows "0 \<le> lo st \<Longrightarrow> lo st \<le> hi st \<Longrightarrow> hi st < m * b
    \<Longrightarrow> pdigits n b m s (lo st) (hi st) p r = (ds, l', h', p', r')
    \<Longrightarrow> lo (dec_digits n b m s st) = l' \<and> hi (dec_digits n b m s st) = h'
      \<and> requestedDigits (dec_digits n b m s st) + p = requestedDigits st + length ds + p'
      \<and> (ds = [] \<longrightarrow> requestedDigitsKeepMsd (dec_digits n b m s st) + p
            = requestedDigitsKeepMsd st + p')
      \<and> (ds \<noteq> [] \<longrightarrow> requestedDigitsKeepMsd (dec_digits n b m s st)
            = requestedDigitsKeepMsd st + p')
      \<and> pos (dec_digits n b m s st) = pos st
      \<and> digitsToDecode (dec_digits n b m s st) = digitsToDecode st
      \<and> isLastDigit (dec_digits n b m s st) = isLastDigit st
      \<and> bytesDecoded (dec_digits n b m s st) = bytesDecoded st
      \<and> yielded (dec_digits n b m s st) = yielded st"
proof (induction n arbitrary: st p r ds)
  case 0
  then show ?case by simp
next
  case (Suc n)
  have b: "0 < b" using assms(2) by simp
  have m: "0 < m" unfolding assms(3) using assms(1) b by simp
  have l0: "0 \<le> lo st" and h0: "0 \<le> hi st" using Suc.prems by simp_all
  have r1: "js_rem (lo st) s = lo st mod s" "js_rem (hi st) s = hi st mod s"
    "js_rem (lo st) m = lo st mod m" "js_rem (hi st) m = hi st mod m"
    using l0 h0 assms(1) m by (simp_all add: js_rem_nonneg)
  have "0 \<le> lo st div s" "0 \<le> hi st div s"
    using l0 h0 assms(1) by (simp_all add: pos_imp_zdiv_nonneg_iff)
  then have r2: "js_rem (lo st div s) b = (lo st div s) mod b"
    "js_rem (hi st div s) b = (hi st div s) mod b"
    using b by (simp_all add: js_rem_nonneg)
  from Suc.prems(4) show ?case
  proof (cases rule: pdigits_cases)
    case deferred
    note f = defer_facts[OF assms Suc.prems(1,3) deferred(1-3)]
    define st1 where "st1 = st\<lparr>lo := lo st div m * m + lo st mod s * b,
        hi := hi st div m * m + hi st mod s * b,
        requestedDigits := requestedDigits st + 1,
        requestedDigitsKeepMsd := requestedDigitsKeepMsd st + 1\<rparr>"
    have e: "dec_digits (Suc n) b m s st = dec_digits n b m s st1"
      using deferred(1-3) by (simp add: Let_def r1 r2 st1_def)
    have p1: "pdigits n b m s (lo st1) (hi st1) (p + 1) (hi st div m) = (ds, l', h', p', r')"
      using deferred(4) by (simp add: st1_def)
    have i1: "0 \<le> lo st1" "lo st1 \<le> hi st1" "hi st1 < m * b"
      using f(1-3) by (simp_all add: st1_def)
    have "hi st1 div m - lo st1 div m = 1" using f(5,6) deferred(1) by (simp add: st1_def)
    from pdigits_near_no_settle[OF assms i1(1) i1(3) this p1] have ds: "ds = []" .
    from Suc.IH[OF i1 p1] show ?thesis unfolding e by (simp add: st1_def ds)
  next
    case (settled ds1 x)
    note f = settle_facts[OF m b Suc.prems(1-3) settled(2)]
    from settled(4) have x: "x = (l', h', p', r')"
      and ds: "ds = hi st div m # replicate p (if hi st div m = r then 0 else b - 1) @ ds1"
      by simp_all
    define st1 where "st1 = st\<lparr>lo := lo st mod m * b, hi := hi st mod m * b,
        requestedDigits := requestedDigits st + 1\<rparr>"
    have e: "dec_digits (Suc n) b m s st = dec_digits n b m s st1"
      using settled(1,2) by (simp add: Let_def r1 st1_def)
    have p1: "pdigits n b m s (lo st1) (hi st1) 0 r = (ds1, l', h', p', r')"
      using settled(3) x by (simp add: st1_def)
    have i1: "0 \<le> lo st1" "lo st1 \<le> hi st1" "hi st1 < m * b"
      using f(1-3) by (simp_all add: st1_def)
    from Suc.IH[OF i1 p1] show ?thesis unfolding e by (cases "ds1 = []") (simp_all add: st1_def ds)
  next
    case stop_near
    have e: "dec_digits (Suc n) b m s st = st"
      using stop_near(1,2) by (auto simp: Let_def r1 r2)
    from stop_near(3) show ?thesis unfolding e by simp
  next
    case stop_far
    have e: "dec_digits (Suc n) b m s st = st"
      using stop_far(1,2) by (auto simp: Let_def r1 r2)
    from stop_far(3) show ?thesis unfolding e by simp
  qed
qed

lemma narrow_dec_fields [simp]:
  "requestedDigits (narrow st byte) = requestedDigits st"
  "requestedDigitsKeepMsd (narrow st byte) = requestedDigitsKeepMsd st"
  "pos (narrow st byte) = pos st"
  "digitsToDecode (narrow st byte) = digitsToDecode st"
  "isLastDigit (narrow st byte) = isLastDigit st"
  "bytesDecoded (narrow st byte) = bytesDecoded st"
  "yielded (narrow st byte) = yielded st"
  by (simp_all add: narrow_def Let_def)

lemma dec_loop_step:
  assumes "read_digits encodedText table e b m s D st = Some (Inr st1)"
  shows "dec_loop encodedText table e lengthParity b (m, s, E, D) st =
     (if isLastDigit st1 then
        (if bytesDecoded st1 mod 2 \<noteq> lengthParity
         then Some (yielded st1 @ [(256 * (digitsToDecode st1 - lo st1)) div (hi st1 - lo st1 + 1)],
                    Returned)
         else Some (yielded st1, Returned))
      else dec_loop encodedText table e lengthParity b (m, s, E, D)
             (dec_byte b m s E st1
                ((256 * (digitsToDecode st1 - lo st1)) div (hi st1 - lo st1 + 1))))"
  by (subst dec_loop.simps) (simp add: assms Let_def)

lemma dec_loop_run:
  fixes b m s :: int
  assumes "2 \<le> b" "b \<le> 256" "calculateParams b = Some (m, s, E, D)"
    and "\<forall>i. 0 \<le> t i \<and> t i < b"
    and "\<forall>i. int i < e \<longrightarrow> Map_get table (encodedText ! i) = Some (nat (t i))"
    and "\<forall>i. e \<le> int i \<longrightarrow> t i = 0"
  shows "boundary b m s l h p r \<Longrightarrow> \<forall>y\<in>set bs. 0 \<le> y \<and> y \<le> 255
    \<Longrightarrow> pbytes E b m s bs l h p r = (ds, lf, hf, pf, rf)
    \<Longrightarrow> future t a ds (hf div m)
    \<Longrightarrow> e = int (a + length ds + 1 + pf)
    \<Longrightarrow> lo st = l \<Longrightarrow> hi st = h
    \<Longrightarrow> digitsToDecode (readn (requestedDigits st) t e b m s D st) = W t b D a p
    \<Longrightarrow> requestedDigitsKeepMsd (readn (requestedDigits st) t e b m s D st) = 0
    \<Longrightarrow> pos st + requestedDigits st = a + p + D
    \<Longrightarrow> (isLastDigit st \<longleftrightarrow> e + int D - 1 \<le> int (pos st))
    \<Longrightarrow> lengthParity = (bytesDecoded st + length bs) mod 2
    \<Longrightarrow> dec_loop encodedText table e lengthParity b (m, s, E, D) st
          = Some (yielded st @ bs, Returned)"
proof (induction bs arbitrary: l h p r ds a st)
  case Nil
  note pf = params_facts[OF assms(1-3)]
  define st1 where "st1 = readn (requestedDigits st) t e b m s D st"
  have D2: "2 \<le> D" using pf(10) by simp
  have ag: "\<forall>i. int i < e \<longrightarrow> Map_get table (encodedText ! i) = Some (nat (t i)) \<and> 0 \<le> t i"
    using assms(4,5) by simp
  have rd: "read_digits encodedText table e b m s D st = Some (Inr st1)"
    unfolding st1_def by (rule read_digits_readn[OF D2 ag assms(6) refl])
  from Nil(3) have eq: "ds = []" "pf = p" by simp_all
  have ps: "pos st1 = a + p + D" using Nil(10) by (simp add: st1_def readn_fields)
  have "isLastDigit st1 \<longleftrightarrow> e + int D - 1 \<le> int (pos st1)"
    using readn_flag[OF Nil(11), of "requestedDigits st" t b m s] by (simp add: st1_def readn_fields)
  then have fl: "isLastDigit st1" using Nil(5) ps eq by simp
  have bd: "bytesDecoded st1 = bytesDecoded st" "yielded st1 = yielded st"
    by (simp_all add: st1_def readn_fields)
  show ?case unfolding dec_loop_step[OF rd] using fl bd Nil(12) by simp
next
  case (Cons y ys)
  note pf = params_facts[OF assms(1-3)]
  have D2: "2 \<le> D" and D3: "3 \<le> D" using pf(10) by simp_all
  from Cons.prems(2) have byr: "0 \<le> y" "y \<le> 255"
    and rest: "\<forall>y\<in>set ys. 0 \<le> y \<and> y \<le> 255" by simp_all
  define st1 where "st1 = readn (requestedDigits st) t e b m s D st"
  have ag: "\<forall>i. int i < e \<longrightarrow> Map_get table (encodedText ! i) = Some (nat (t i)) \<and> 0 \<le> t i"
    using assms(4,5) by simp
  have rd: "read_digits encodedText table e b m s D st = Some (Inr st1)"
    unfolding st1_def by (rule read_digits_readn[OF D2 ag assms(6) refl])
  have f1: "lo st1 = l" "hi st1 = h" "pos st1 = a + p + D" "requestedDigits st1 = 0"
    "bytesDecoded st1 = bytesDecoded st" "yielded st1 = yielded st"
    "digitsToDecode st1 = W t b D a p" "requestedDigitsKeepMsd st1 = 0"
    using Cons.prems(6-10) by (simp_all add: st1_def readn_fields)
  have fl: "isLastDigit st1 \<longleftrightarrow> e + int D - 1 \<le> int (pos st1)"
    using readn_flag[OF Cons.prems(11), of "requestedDigits st" t b m s]
    by (simp add: st1_def readn_fields)
  define nl where "nl = l + ceil256 ((h - l + 1) * y)"
  define nh where "nh = l + (ceil256 ((h - l + 1) * (y + 1)) - 1)"
  obtain ds1 l1 h1 p1 r1 where d1: "pdigits E b m s nl nh p r = (ds1, l1, h1, p1, r1)"
    by (metis prod_cases5)
  obtain ds2 x2 where d2: "pbytes E b m s ys l1 h1 p1 r1 = (ds2, x2)"
    by (metis surj_pair)
  from Cons.prems(3) d1 d2 have x2: "x2 = (lf, hf, pf, rf)" and ds: "ds = ds1 @ ds2"
    by (simp_all add: nl_def nh_def)
  note pb = pbyte_boundary[OF assms(1-3) Cons.prems(1) byr d1[unfolded nl_def nh_def],
      folded nl_def nh_def]
  from Cons.prems(1) have lh: "l \<le> h" "0 \<le> l" "h < m * b" by (simp_all add: boundary_def)
  from consistent_pbytes[OF assms(1-4) Cons.prems(1-4)]
  have cn: "consistent t b D a nl nh p r" by (simp add: nl_def nh_def)
  then have w: "nl \<le> W t b D a p" "W t b D a p \<le> nh" by (simp_all add: consistent_def)
  have byte: "(256 * (digitsToDecode st1 - lo st1)) div (hi st1 - lo st1 + 1) = y"
    unfolding f1 by (rule narrow_inverse[OF lh(1) w[unfolded nl_def nh_def]])
  note step = dec_loop_step[OF rd, of lengthParity E, unfolded byte]
  note cnt = pdigits_count[OF d1]
  show ?case
  proof (cases "isLastDigit st1")
    case True
    then have "int (a + length ds + 1 + pf) + int D - 1 \<le> int (a + p + D)"
      using fl f1(3) Cons.prems(5) by simp
    then have le: "length ds + pf \<le> p" by linarith
    have "ys = []"
    proof (cases ys)
      case Nil
      then show ?thesis .
    next
      case (Cons y2 rest)
      have "0 \<le> y2" "y2 \<le> 255" "\<forall>y\<in>set rest. 0 \<le> y \<and> y \<le> 255"
        using rest Cons by simp_all
      from no_shift_two[OF assms(1-3) Cons.prems(1) byr this Cons.prems(3)[unfolded Cons] le]
      show ?thesis by simp
    qed
    then have "lengthParity = (bytesDecoded st + 1) mod 2" using Cons.prems(12) by simp
    then have "bytesDecoded st1 mod 2 \<noteq> lengthParity" unfolding f1 by presburger
    then show ?thesis unfolding step using True f1 \<open>ys = []\<close> by simp
  next
    case False
    define stn where "stn = narrow (st1\<lparr>yielded := yielded st1 @ [y]\<rparr>) y"
    define st' where "st' = dec_digits E b m s stn"
    define st2 where "st2 = dec_byte b m s E st1 y"
    have st2: "st2 = st'\<lparr>bytesDecoded := bytesDecoded st' + 1\<rparr>"
      by (simp add: st2_def dec_byte_def Let_def st'_def stn_def)
    have fn: "lo stn = nl" "hi stn = nh" "requestedDigits stn = 0" "requestedDigitsKeepMsd stn = 0"
      "pos stn = a + p + D" "digitsToDecode stn = W t b D a p" "isLastDigit stn = isLastDigit st1"
      "bytesDecoded stn = bytesDecoded st" "yielded stn = yielded st @ [y]"
      using f1 by (simp_all add: stn_def nl_def nh_def)
    have nl0: "0 \<le> lo stn" using pb(2) lh(2) fn by simp
    have nlh: "lo stn \<le> hi stn" using pb(3) fn by simp
    have nhb: "hi stn < m * b" using pb(4) lh(3) fn by simp
    note dd = dec_digits_pdigits[OF pf(1) assms(1) pf(2) nl0 nlh nhb d1[folded fn(1,2)],
        folded st'_def, unfolded fn]
    have g: "lo st' = l1" "hi st' = h1" "requestedDigits st' + p = length ds1 + p1"
      "ds1 = [] \<longrightarrow> requestedDigitsKeepMsd st' + p = p1"
      "ds1 \<noteq> [] \<longrightarrow> requestedDigitsKeepMsd st' = p1"
      "pos st' = a + p + D" "digitsToDecode st' = W t b D a p"
      "isLastDigit st' = isLastDigit st1" "bytesDecoded st' = bytesDecoded st"
      "yielded st' = yielded st @ [y]"
      using dd by simp_all
    define q where "q = requestedDigits st2"
    define k where "k = requestedDigitsKeepMsd st2"
    have q: "q + p = length ds1 + p1" using g(3) by (simp add: q_def st2)
    have k: "ds1 = [] \<longrightarrow> k + p = p1" "ds1 \<noteq> [] \<longrightarrow> k = p1" using g(4,5) by (simp_all add: k_def st2)
    have kq: "k \<le> q" using q k cnt by (cases "ds1 = []") auto
    have w2: "digitsToDecode st2 = W t b D a p" "pos st2 = a + p + D"
      using g(6,7) by (simp_all add: st2)
    note rw = readn_window[OF assms(1) D3 pf(8,9) assms(4) w2 q_def[symmetric] k_def[symmetric] kq,
        of e]
    have tgt: "(if q = k then W t b D a (p + k) else W t b D (a + p + q - k) k)
        = W t b D (a + length ds1) p1"
    proof (cases "ds1 = []")
      case True
      then show ?thesis using q k by (auto simp: add.commute)
    next
      case False
      then have "p < length ds1" using cnt by simp
      then have "q \<noteq> k" "a + p + q - k = a + length ds1" using q k False by auto
      then show ?thesis using k False by simp
    qed
    have i8: "digitsToDecode (readn (requestedDigits st2) t e b m s D st2)
        = W t b D (a + length ds1) p1"
      using rw tgt by (simp add: q_def)
    have i9: "requestedDigitsKeepMsd (readn (requestedDigits st2) t e b m s D st2) = 0"
      using rw by (simp add: q_def)
    have i10: "pos st2 + requestedDigits st2 = (a + length ds1) + p1 + D"
      using w2(2) q by (simp add: q_def[symmetric])
    have i11: "isLastDigit st2 \<longleftrightarrow> e + int D - 1 \<le> int (pos st2)"
      using fl g(8) f1(3) w2(2) by (simp add: st2)
    have i12: "lengthParity = (bytesDecoded st2 + length ys) mod 2"
      using Cons.prems(12) g(9) by (simp add: st2)
    note fa = future_append[OF Cons.prems(4)[unfolded ds]]
    have i5: "e = int ((a + length ds1) + length ds2 + 1 + pf)"
      using Cons.prems(5) by (simp add: ds)
    have i6: "lo st2 = l1" "hi st2 = h1" using g(1,2) by (simp_all add: st2)
    from Cons.IH[OF pb(1) rest d2[unfolded x2] fa(2) i5 i6 i8 i9 i10 i11 i12]
    have "dec_loop encodedText table e lengthParity b (m, s, E, D) st2
        = Some (yielded st2 @ ys, Returned)" .
    then show ?thesis unfolding step using False g(10) by (simp add: st2_def[symmetric] st2)
  qed
qed

lemma Map_set_length: "Map_get m k = None \<Longrightarrow> length (Map_set m k v) = Suc (length m)"
  by (induction m k v rule: Map_set.induct) (auto split: if_splits)

lemma decodingTable_loop_size:
  "distinct (take n alphabet) \<Longrightarrow> n \<le> length alphabet
   \<Longrightarrow> \<forall>j<n. Map_get t (alphabet ! j) = None
   \<Longrightarrow> length (decodingTable_loop alphabet n t) = n + length t"
proof (induction n arbitrary: t)
  case 0
  then show ?case by simp
next
  case (Suc n)
  have tk: "take (Suc n) alphabet = take n alphabet @ [alphabet ! n]"
    using Suc.prems(2) by (simp add: take_Suc_conv_app_nth)
  have d: "distinct (take n alphabet)" and nin: "alphabet ! n \<notin> set (take n alphabet)"
    using Suc.prems(1) unfolding tk by simp_all
  have ne: "\<forall>j<n. alphabet ! j \<noteq> alphabet ! n"
  proof (intro allI impI)
    fix j assume "j < n"
    then have "alphabet ! j \<in> set (take n alphabet)"
      using Suc.prems(2) by (auto simp: in_set_conv_nth intro!: exI[of _ j])
    then show "alphabet ! j \<noteq> alphabet ! n" using nin by auto
  qed
  have "\<forall>j<n. Map_get (Map_set t (alphabet ! n) n) (alphabet ! j) = None"
    using Suc.prems(3) ne by (simp add: Map_get_Map_set)
  from Suc.IH[OF d _ this] Suc.prems(2)
  have "length (decodingTable_loop alphabet n (Map_set t (alphabet ! n) n))
      = n + length (Map_set t (alphabet ! n) n)" by simp
  moreover have "length (Map_set t (alphabet ! n) n) = Suc (length t)"
    using Suc.prems(3) by (intro Map_set_length) simp
  ultimately show ?case by simp
qed

lemma new_Decoder_distinct:
  assumes "new_Decoder alphabet = Inr dec" "distinct alphabet"
  shows "Map_size (decodingTable dec) = length alphabet"
    and "\<forall>k<length alphabet. Map_get (decodingTable dec) (alphabet ! k) = Some k"
proof -
  have tb: "decodingTable dec = decodingTable_loop alphabet (length alphabet) []"
    using assms(1) by (auto simp: new_Decoder_def split: if_splits)
  show "Map_size (decodingTable dec) = length alphabet"
    unfolding tb Map_size_def using decodingTable_loop_size[of "length alphabet" alphabet "[]"]
      assms(2) by simp
  show "\<forall>k<length alphabet. Map_get (decodingTable dec) (alphabet ! k) = Some k"
  proof (intro allI impI)
    fix k assume k: "k < length alphabet"
    have "\<forall>j<k. alphabet ! j \<noteq> alphabet ! k"
      using assms(2) k by (auto simp: nth_eq_iff_index_eq)
    then show "Map_get (decodingTable dec) (alphabet ! k) = Some k"
      unfolding tb by (intro decodingTable_loop_first k)
  qed
qed

lemma round_trip:
  assumes "new_Encoder alphabet = Inr enc" "new_Decoder alphabet = Inr dec" "distinct alphabet"
    and "\<forall>byte\<in>set bytes. 0 \<le> byte \<and> byte \<le> 255"
  shows "\<exists>encodedText. encode enc bytes = Some (Inr encodedText)
     \<and> Decoder_decode dec encodedText = Some (bytes, Returned)"
proof -
  define b where "b = int (length alphabet)"
  note ne = new_Encoder_Inr[OF assms(1), folded b_def]
  note nd = new_Decoder_distinct[OF assms(2,3)]
  obtain m s E D where cp: "calculateParams b = Some (m, s, E, D)"
    using calculateParams_Some[OF ne(2,3)] by blast
  note pf = params_facts[OF ne(2,3) cp]
  obtain ds l h p r where pb: "pbytes E b m s bytes 0 (m * b - 1) 0 0 = (ds, l, h, p, r)"
    by (metis prod_cases5)
  note ed = encode_digits[OF assms(1,4) cp[unfolded b_def] pb[unfolded b_def], folded b_def]
  define full where "full = ds @ [h div m] @ replicate p 0 @ [int (length bytes mod 2)]"
  define etext where "etext = map (\<lambda>d. alphabet ! nat d) full"
  define e where "e = length ds + 1 + p"
  define t where "t i = (if i < e then full ! i else 0)" for i
  have enc: "encode enc bytes = Some (Inr etext)" using ed(2) by (simp add: etext_def full_def)
  have len: "length etext = e + 1" by (simp add: etext_def full_def e_def)
  from ed(3) have bd: "0 \<le> l" "l \<le> h" "h < m * b" by (simp_all add: boundary_def)
  have hm: "0 \<le> h div m" "h div m < b"
    using msd_bounds[OF pf(11), of h b] bd by simp_all
  have b0: "0 < b" using ne(2) by simp
  have fr: "\<forall>x\<in>set full. 0 \<le> x \<and> x < b"
    using ed(4) hm ne(2) b0 unfolding full_def by auto
  have tr: "\<forall>i. 0 \<le> t i \<and> t i < b"
  proof
    fix i
    show "0 \<le> t i \<and> t i < b"
    proof (cases "i < e")
      case True
      then have "i < length full" by (simp add: full_def e_def)
      then have "full ! i \<in> set full" by (rule nth_mem)
      then show ?thesis using fr True by (simp add: t_def)
    next
      case False
      then show ?thesis using b0 by (simp add: t_def)
    qed
  qed
  have ag: "\<forall>i. int i < int e \<longrightarrow> Map_get (decodingTable dec) (etext ! i) = Some (nat (t i))"
  proof (intro allI impI)
    fix i assume "int i < int e"
    then have i: "i < e" by simp
    then have il: "i < length full" by (simp add: full_def e_def)
    have "nat (t i) < length alphabet" using tr[rule_format, of i] unfolding b_def by linarith
    then have "Map_get (decodingTable dec) (alphabet ! nat (t i)) = Some (nat (t i))"
      using nd(2) by simp
    moreover have "etext ! i = alphabet ! nat (t i)" using i il by (simp add: etext_def t_def)
    ultimately show "Map_get (decodingTable dec) (etext ! i) = Some (nat (t i))" by simp
  qed
  have z: "\<forall>i. int e \<le> int i \<longrightarrow> t i = 0" by (simp add: t_def)
  have fu: "future t 0 ds (h div m)"
    unfolding future_def
  proof (intro conjI allI impI)
    fix i assume "i < length ds"
    then show "t (0 + i) = ds ! i" by (simp add: t_def e_def full_def nth_append)
  next
    show "t (0 + length ds) = h div m" by (simp add: t_def e_def full_def nth_append)
  next
    fix i assume i: "0 + length ds < i"
    show "t i = 0"
    proof (cases "i < e")
      case True
      then have "i - length ds - 1 < p" using i by (simp add: e_def)
      then show ?thesis using i True
        by (simp add: t_def full_def nth_append nth_Cons')
    next
      case False
      then show ?thesis by (simp add: t_def)
    qed
  qed
  define st where "st = dec_init m b D"
  have sf: "lo st = 0" "hi st = m * b - 1" "pos st = 0" "digitsToDecode st = 0"
    "requestedDigits st = D" "requestedDigitsKeepMsd st = 0" "\<not> isLastDigit st"
    "bytesDecoded st = 0" "yielded st = []"
    by (simp_all add: st_def dec_init_def)
  have i0: "digitsToDecode st = V t b 0 (pos st)" by (simp add: sf)
  have iD: "pos st + D \<le> D" by (simp add: sf)
  note ri = readn_init[OF ne(2) pf(8) tr i0 sf(5,6) iD, of "int e"]
  have D1: "1 \<le> D" using pf(10) by simp
  have w: "digitsToDecode (readn (requestedDigits st) t (int e) b m s D st) = W t b D 0 0"
    using ri by (simp add: sf W_start[OF D1])
  have kp: "requestedDigitsKeepMsd (readn (requestedDigits st) t (int e) b m s D st) = 0"
    using ri by (simp add: sf)
  have ps: "pos st + requestedDigits st = 0 + 0 + D" by (simp add: sf)
  have fl: "isLastDigit st \<longleftrightarrow> int e + int D - 1 \<le> int (pos st)"
    using pf(10) by (simp add: sf e_def)
  have par: "length bytes mod 2 = (bytesDecoded st + length bytes) mod 2" by (simp add: sf)
  have ee: "int e = int (0 + length ds + 1 + p)" by (simp add: e_def)
  note run = dec_loop_run[OF ne(2,3) cp tr ag z boundary_init[OF ne(2,3) cp] assms(4) pb fu ee
      sf(1,2) w kp ps fl par]
  have last: "etext ! e = alphabet ! (length bytes mod 2)"
    by (simp add: etext_def full_def e_def nth_append)
  have "length bytes mod 2 < length alphabet" using ne(2) unfolding b_def by linarith
  then have lg: "Map_get (decodingTable dec) (etext ! e) = Some (length bytes mod 2)"
    using nd(2) last by simp
  have "decode etext (decodingTable dec) = Some (bytes, Returned)"
    using run lg cp by (simp add: decode_def Let_def len Map_has_def nd(1) b_def[symmetric]
        st_def[symmetric] sf)
  then show ?thesis using enc by (simp add: Decoder_decode_def)
qed


section \<open>The interval in the two byte loops\<close>

lemma take_digit_flag_fields:
  "lo (take_digit b m s (if c then st\<lparr>isLastDigit := True\<rparr> else st) x) = lo st"
  "hi (take_digit b m s (if c then st\<lparr>isLastDigit := True\<rparr> else st) x) = hi st"
  "yielded (take_digit b m s (if c then st\<lparr>isLastDigit := True\<rparr> else st) x) = yielded st"
  by simp_all

lemma read_digits_interval:
  assumes "read_digits encodedText table endIndex base msdDivisor secondMsdDivisor
      maxDigitsToDecode st = Some (Inr st1)"
  shows "lo st1 = lo st \<and> hi st1 = hi st \<and> yielded st1 = yielded st"
proof -
  have "\<forall>x. (Inr st1 :: error + dec_state) = Inr x
      \<longrightarrow> lo x = lo st \<and> hi x = hi st \<and> yielded x = yielded st"
  proof (rule read_digits.raw_induct[where P = "\<lambda>t tb e b m s d st y.
      \<forall>x. y = Inr x \<longrightarrow> lo x = lo st \<and> hi x = hi st \<and> yielded x = yielded st",
      OF _ assms], goal_cases)
    case (1 rd t tb e b m s d st0 y0)
    show ?case
    proof (cases "requestedDigits st0 = 0")
      case True
      have "y0 = Inr st0" using 1(2) True by simp
      then show ?thesis by simp
    next
      case False
      note pos = False
      show ?thesis
      proof (cases "int (pos st0) < e")
        case False
        have "rd t tb e b m s d (take_digit b m s
            (if int (pos st0) - e = int d - 2 then st0\<lparr>isLastDigit := True\<rparr> else st0) 0) = Some y0"
          using 1(2) pos False by (simp del: if_split cong: if_cong)
        from 1(1)[OF this] show ?thesis by (simp only: take_digit_flag_fields)
      next
        case True
        show ?thesis
        proof (cases "Map_get tb (t ! pos st0)")
          case None
          show ?thesis
          proof (cases "isWhitespace (t ! pos st0)")
            case True
            have "rd t tb e b m s d st0 = Some y0"
              using 1(2) pos \<open>int (pos st0) < e\<close> None True by (simp add: Let_def)
            from 1(1)[OF this] show ?thesis .
          next
            case False
            have "y0 = Inl (Error ''invalid input string'')"
              using 1(2) pos \<open>int (pos st0) < e\<close> None False by (simp add: Let_def)
            then show ?thesis by simp
          qed
        next
          case (Some digit)
          have "rd t tb e b m s d (take_digit b m s st0 (int digit)) = Some y0"
            using 1(2) pos True Some by (simp add: Let_def)
          from 1(1)[OF this] show ?thesis by (simp only: take_digit_fields)
        qed
      qed
    qed
  qed
  then show ?thesis by simp
qed

lemma dec_points:
  fixes b m s :: int and st :: dec_state
  assumes "2 \<le> b" "b \<le> 256" "calculateParams b = Some (m, s, E, D)"
    and "boundary b m s (lo st) (hi st) p r" "0 \<le> byte" "byte \<le> 255"
  shows "interval_inv (m * b) st"
    and "interval_inv (m * b) (narrow st byte)"
    and "interval_inv (m * b) (dec_digits k b m s (narrow st byte))"
    and "\<exists>p' r'. boundary b m s (lo (dec_digits E b m s (narrow st byte)))
           (hi (dec_digits E b m s (narrow st byte))) p' r'"
    and "yielded (dec_digits k b m s (narrow st byte)) = yielded st"
proof -
  note pf = params_facts[OF assms(1-3)]
  define nl where "nl = lo st + ceil256 ((hi st - lo st + 1) * byte)"
  define nh where "nh = lo st + (ceil256 ((hi st - lo st + 1) * (byte + 1)) - 1)"
  from assms(4) have bd: "0 \<le> lo st" "lo st \<le> hi st" "hi st < m * b"
    by (simp_all add: boundary_def)
  show "interval_inv (m * b) st" using bd by (simp add: interval_inv_def)
  obtain ds l' h' p' r' where d: "pdigits E b m s nl nh p r = (ds, l', h', p', r')"
    by (metis prod_cases5)
  note pb = pbyte_boundary[OF assms(1-3) assms(4-6) d[unfolded nl_def nh_def], folded nl_def nh_def]
  have n: "0 \<le> nl" "nl \<le> nh" "nh < m * b" using pb(2,3,4) bd by linarith+
  have nf: "lo (narrow st byte) = nl" "hi (narrow st byte) = nh" by (simp_all add: nl_def nh_def)
  show "interval_inv (m * b) (narrow st byte)" using n by (simp only: interval_inv_def nf) simp
  have n': "0 \<le> lo (narrow st byte)" "lo (narrow st byte) \<le> hi (narrow st byte)"
    "hi (narrow st byte) < m * b" using n by (simp_all only: nf)
  obtain dsk lk hk pk rk where dk: "pdigits k b m s nl nh p r = (dsk, lk, hk, pk, rk)"
    by (metis prod_cases5)
  note ik = pdigits_interval[OF pf(1) assms(1) pf(2) n dk]
  note dd = dec_digits_pdigits[OF pf(1) assms(1) pf(2) n' dk[folded nf]]
  show "interval_inv (m * b) (dec_digits k b m s (narrow st byte))"
    using ik dd by (simp add: interval_inv_def)
  show "yielded (dec_digits k b m s (narrow st byte)) = yielded st" using dd by simp
  note dE = dec_digits_pdigits[OF pf(1) assms(1) pf(2) n' d[folded nf]]
  have "boundary b m s (lo (dec_digits E b m s (narrow st byte)))
           (hi (dec_digits E b m s (narrow st byte))) p' r'"
    using pb(1) dE by simp
  then show "\<exists>p' r'. boundary b m s (lo (dec_digits E b m s (narrow st byte)))
           (hi (dec_digits E b m s (narrow st byte))) p' r'" by blast
qed

lemma dec_byte_boundary:
  fixes b m s :: int
  assumes "2 \<le> b" "b \<le> 256" "calculateParams b = Some (m, s, E, D)"
    and "boundary b m s (lo st) (hi st) p r" "0 \<le> byte" "byte \<le> 255"
  shows "\<exists>p' r'. boundary b m s (lo (dec_byte b m s E st byte)) (hi (dec_byte b m s E st byte)) p' r'"
    and "yielded (dec_byte b m s E st byte) = yielded st @ [byte]"
proof -
  define sy where "sy = st\<lparr>yielded := yielded st @ [byte]\<rparr>"
  have f: "lo sy = lo st" "hi sy = hi st" "yielded sy = yielded st @ [byte]"
    by (simp_all add: sy_def)
  have bs: "boundary b m s (lo sy) (hi sy) p r" using assms(4) by (simp only: f)
  note dp = dec_points[OF assms(1-3) bs assms(5,6)]
  have e: "dec_byte b m s E st byte
      = (dec_digits E b m s (narrow sy byte))\<lparr>bytesDecoded :=
           bytesDecoded (dec_digits E b m s (narrow sy byte)) + 1\<rparr>"
    by (simp add: dec_byte_def Let_def sy_def)
  show "\<exists>p' r'. boundary b m s (lo (dec_byte b m s E st byte)) (hi (dec_byte b m s E st byte)) p' r'"
    using dp(4) unfolding e by simp
  show "yielded (dec_byte b m s E st byte) = yielded st @ [byte]"
    unfolding e using dp(5)[of E] f by simp
qed

lemma dec_at_Suc:
  assumes "dec_at (Suc n) t tb e b m s E D = Some st'"
  shows "\<exists>st st1. dec_at n t tb e b m s E D = Some st
     \<and> read_digits t tb e b m s D st = Some (Inr st1) \<and> \<not> isLastDigit st1
     \<and> st' = dec_byte b m s E st1
               ((256 * (digitsToDecode st1 - lo st1)) div (hi st1 - lo st1 + 1))"
  using assms by (auto split: option.splits sum.splits if_splits)

lemma dec_digits_yielded: "yielded (dec_digits n b m s st) = yielded st"
  by (induction n arbitrary: st) (simp_all add: Let_def)

lemma dec_byte_yielded: "yielded (dec_byte b m s E st byte) = yielded st @ [byte]"
  by (simp add: dec_byte_def Let_def dec_digits_yielded)

lemma dec_at_boundary:
  fixes b m s :: int
  assumes "2 \<le> b" "b \<le> 256" "calculateParams b = Some (m, s, E, D)"
  shows "dec_at n t tb e b m s E D = Some st \<Longrightarrow> \<forall>y\<in>set (yielded st). 0 \<le> y \<and> y \<le> 255
    \<Longrightarrow> \<exists>p r. boundary b m s (lo st) (hi st) p r"
proof (induction n arbitrary: st)
  case 0
  then have "lo st = 0" "hi st = m * b - 1" by (auto simp: dec_init_def)
  then show ?case using boundary_init[OF assms] by auto
next
  case (Suc n)
  from dec_at_Suc[OF Suc.prems(1)] obtain st0 st1 where
    a: "dec_at n t tb e b m s E D = Some st0" and
    rd: "read_digits t tb e b m s D st0 = Some (Inr st1)" and
    st: "st = dec_byte b m s E st1
               ((256 * (digitsToDecode st1 - lo st1)) div (hi st1 - lo st1 + 1))"
    by blast
  define byte where "byte = (256 * (digitsToDecode st1 - lo st1)) div (hi st1 - lo st1 + 1)"
  note ri = read_digits_interval[OF rd]
  have y: "yielded st = yielded st0 @ [byte]"
    unfolding st byte_def[symmetric] using ri by (simp add: dec_byte_yielded)
  then have byr: "0 \<le> byte" "byte \<le> 255" and y0: "\<forall>y\<in>set (yielded st0). 0 \<le> y \<and> y \<le> 255"
    using Suc.prems(2) by simp_all
  from Suc.IH[OF a y0] obtain p r where "boundary b m s (lo st0) (hi st0) p r" by blast
  then have "boundary b m s (lo st1) (hi st1) p r" using ri by simp
  from dec_byte_boundary(1)[OF assms this byr] show ?case unfolding st byte_def .
qed

lemma dec_at_loop:
  "dec_at n t tb e b m s E D = Some st
   \<Longrightarrow> dec_loop t tb e par b (m, s, E, D) st
       = dec_loop t tb e par b (m, s, E, D) (dec_init m b D)"
proof (induction n arbitrary: st)
  case 0
  then show ?case by simp
next
  case (Suc n)
  from dec_at_Suc[OF Suc.prems(1)] obtain st0 st1 where
    a: "dec_at n t tb e b m s E D = Some st0" and
    rd: "read_digits t tb e b m s D st0 = Some (Inr st1)" and nl: "\<not> isLastDigit st1" and
    st: "st = dec_byte b m s E st1
               ((256 * (digitsToDecode st1 - lo st1)) div (hi st1 - lo st1 + 1))"
    by blast
  have "dec_loop t tb e par b (m, s, E, D) st0 = dec_loop t tb e par b (m, s, E, D) st"
    unfolding dec_loop_step[OF rd] st using nl by simp
  then show ?case using Suc.IH[OF a] by simp
qed

lemma dec_loop_prefix:
  assumes "dec_loop t tb e par b params st = Some (ys, out)"
  shows "\<exists>zs. ys = yielded st @ zs"
proof -
  have "\<exists>zs. fst (ys, out) = yielded st @ zs"
  proof (rule dec_loop.raw_induct[where P = "\<lambda>t tb e par b params st y.
      \<exists>zs. fst y = yielded st @ zs", OF _ assms], goal_cases)
    case (1 dl t tb e par b params st0 y0)
    obtain m s E D where p: "params = (m, s, E, D)" by (metis prod_cases4)
    show ?case
    proof (cases "read_digits t tb e b m s D st0")
      case None
      with 1(2) p show ?thesis by simp
    next
      case (Some r)
      show ?thesis
      proof (cases r)
        case (Inl err)
        with 1(2) p Some have "y0 = (yielded st0, Thrown err)" by simp
        then show ?thesis by simp
      next
        case (Inr st1)
        note ri = read_digits_interval[OF Some[unfolded Inr]]
        define byte where "byte = (256 * (digitsToDecode st1 - lo st1)) div (hi st1 - lo st1 + 1)"
        show ?thesis
        proof (cases "isLastDigit st1")
          case True
          with 1(2) p Some Inr have "y0 = (yielded st1 @ [byte], Returned) \<or> y0 = (yielded st1, Returned)"
            by (auto simp: Let_def byte_def split: if_splits)
          then show ?thesis using ri by auto
        next
          case False
          with 1(2) p Some Inr have "dl t tb e par b params (dec_byte b m s E st1 byte) = Some y0"
            by (simp add: Let_def byte_def)
          from 1(1)[OF this] show ?thesis using ri by (auto simp: dec_byte_yielded)
        qed
      qed
    qed
  qed
  then show ?thesis by simp
qed

lemma enc_bytes_append:
  "enc_bytes tab m s E (xs @ ys) st =
     (case enc_bytes tab m s E xs st of Inl e \<Rightarrow> Inl e | Inr st' \<Rightarrow> enc_bytes tab m s E ys st')"
  by (induction xs arbitrary: st) (simp_all split: sum.splits)

lemma enc_points:
  fixes m s :: int
  assumes "2 \<le> int (length tab)" "int (length tab) \<le> 256"
    "calculateParams (int (length tab)) = Some (m, s, E, D)"
    and "boundary (int (length tab)) m s (lo st) (hi st) (digitsToAdd st) (digitsToAddHiMsd st)"
    and "0 \<le> byte" "byte \<le> 255"
  shows "interval_inv (m * int (length tab)) st"
    and "interval_inv (m * int (length tab)) (narrow st byte)"
    and "\<exists>st'. enc_digits k tab m s (narrow st byte) = Inr st'
           \<and> interval_inv (m * int (length tab)) st'"
proof -
  define b where "b = int (length tab)"
  note a = assms[folded b_def]
  note pf = params_facts[OF a(1-3)]
  define nl where "nl = lo st + ceil256 ((hi st - lo st + 1) * byte)"
  define nh where "nh = lo st + (ceil256 ((hi st - lo st + 1) * (byte + 1)) - 1)"
  from a(4) have bd: "0 \<le> lo st" "lo st \<le> hi st" "hi st < m * b"
    by (simp_all add: boundary_def)
  show "interval_inv (m * b) st" using bd by (simp add: interval_inv_def)
  obtain ds l' h' p' r' where d: "pdigits E b m s nl nh (digitsToAdd st) (digitsToAddHiMsd st)
      = (ds, l', h', p', r')"
    by (metis prod_cases5)
  note pb = pbyte_boundary[OF a(1-6) d[unfolded nl_def nh_def], folded nl_def nh_def]
  have n: "0 \<le> nl" "nl \<le> nh" "nh < m * b" using pb(2,3,4) bd by linarith+
  have nf: "lo (narrow st byte) = nl" "hi (narrow st byte) = nh"
    "digitsToAdd (narrow st byte) = digitsToAdd st"
    "digitsToAddHiMsd (narrow st byte) = digitsToAddHiMsd st"
    by (simp_all add: nl_def nh_def)
  show "interval_inv (m * b) (narrow st byte)" using n by (simp only: interval_inv_def nf) simp
  have n': "0 \<le> lo (narrow st byte)" "lo (narrow st byte) \<le> hi (narrow st byte)"
    "hi (narrow st byte) < m * b" using n by (simp_all only: nf)
  obtain dsk lk hk pk rk where dk: "pdigits k b m s nl nh (digitsToAdd st) (digitsToAddHiMsd st)
      = (dsk, lk, hk, pk, rk)"
    by (metis prod_cases5)
  note ik = pdigits_interval[OF pf(1) a(1) pf(2) n dk]
  note dd = enc_digits_pdigits[OF pf(1) assms(1) pf(2)[unfolded b_def] n'[unfolded b_def]
      dk[folded nf, unfolded b_def]]
  then obtain st' where "enc_digits k tab m s (narrow st byte) = Inr st'" "lo st' = lk" "hi st' = hk"
    by blast
  then show "\<exists>st'. enc_digits k tab m s (narrow st byte) = Inr st' \<and> interval_inv (m * b) st'"
    using ik by (auto simp: interval_inv_def)
qed

lemma enc_prefix_boundary:
  fixes m s :: int
  assumes "2 \<le> int (length tab)" "int (length tab) \<le> 256"
    "calculateParams (int (length tab)) = Some (m, s, E, D)"
    and "\<forall>byte\<in>set bytes. 0 \<le> byte \<and> byte \<le> 255"
  shows "\<exists>st. enc_bytes tab m s E bytes (enc_init m (int (length tab))) = Inr st
    \<and> boundary (int (length tab)) m s (lo st) (hi st) (digitsToAdd st) (digitsToAddHiMsd st)"
proof -
  define st0 where "st0 = enc_init m (int (length tab))"
  have f: "lo st0 = 0" "hi st0 = m * int (length tab) - 1" "digitsToAdd st0 = 0"
    "digitsToAddHiMsd st0 = 0" by (simp_all add: st0_def enc_init_def)
  have b0: "boundary (int (length tab)) m s (lo st0) (hi st0) (digitsToAdd st0)
      (digitsToAddHiMsd st0)"
    unfolding f by (rule boundary_init[OF assms(1-3)])
  obtain ds l' h' p' r' where d: "pbytes E (int (length tab)) m s bytes (lo st0) (hi st0)
      (digitsToAdd st0) (digitsToAddHiMsd st0) = (ds, l', h', p', r')"
    by (metis prod_cases5)
  from enc_bytes_pbytes[OF assms(1-3) b0 assms(4) d] show ?thesis
    unfolding st0_def by blast
qed

lemma decode_dec_loop:
  assumes "decode t tb = Some (ys, Returned)" "calculateParams (int (Map_size tb)) = Some (m, s, E, D)"
  shows "\<exists>par. dec_loop t tb (int (length t) - 1) par (int (Map_size tb)) (m, s, E, D)
           (dec_init m (int (Map_size tb)) D) = Some (ys, Returned)"
proof (cases "int (length t) - 1 < 0 \<or> \<not> Map_has tb (t ! nat (int (length t) - 1))")
  case True
  with assms(1) show ?thesis by (simp add: decode_def Let_def)
next
  case False
  note ok = False
  show ?thesis
  proof (cases "Map_get tb (t ! nat (int (length t) - 1))")
    case None
    with assms(1) ok show ?thesis by (simp add: decode_def Let_def)
  next
    case (Some par)
    show ?thesis
    proof (cases "par > 1")
      case True
      with assms(1) ok Some show ?thesis by (simp add: decode_def Let_def)
    next
      case False
      with assms ok Some have "dec_loop t tb (int (length t) - 1) par (int (Map_size tb))
          (m, s, E, D) (dec_init m (int (Map_size tb)) D) = Some (ys, Returned)"
        by (simp add: decode_def Let_def)
      then show ?thesis by blast
    qed
  qed
qed

lemma dec_run_points:
  fixes b m s :: int
  assumes "2 \<le> b" "b \<le> 256" "calculateParams b = Some (m, s, E, D)"
    and "dec_loop t tb e par b (m, s, E, D) (dec_init m b D) = Some (bytes, out)"
    and "\<forall>byte\<in>set bytes. 0 \<le> byte \<and> byte \<le> 255"
    and "dec_at n t tb e b m s E D = Some st"
  shows "\<exists>zs. bytes = yielded st @ zs"
    and "interval_inv (m * b) st"
    and "read_digits t tb e b m s D st = Some (Inr st1) \<Longrightarrow> \<not> isLastDigit st1
      \<Longrightarrow> byte = (256 * (digitsToDecode st1 - lo st1)) div (hi st1 - lo st1 + 1)
      \<Longrightarrow> 0 \<le> byte \<and> byte \<le> 255
        \<and> interval_inv (m * b) (narrow (st1\<lparr>yielded := yielded st1 @ [byte]\<rparr>) byte)
        \<and> (\<forall>k\<le>E. interval_inv (m * b)
              (dec_digits k b m s (narrow (st1\<lparr>yielded := yielded st1 @ [byte]\<rparr>) byte)))"
proof -
  have run: "dec_loop t tb e par b (m, s, E, D) st = Some (bytes, out)"
    using dec_at_loop[OF assms(6), of par] assms(4) by simp
  show pre: "\<exists>zs. bytes = yielded st @ zs" by (rule dec_loop_prefix[OF run])
  then have yr: "\<forall>y\<in>set (yielded st). 0 \<le> y \<and> y \<le> 255" using assms(5) by auto
  from dec_at_boundary[OF assms(1-3) assms(6) yr] obtain p r where
    bd: "boundary b m s (lo st) (hi st) p r" by blast
  then show "interval_inv (m * b) st" by (simp add: boundary_def interval_inv_def)
  assume rd: "read_digits t tb e b m s D st = Some (Inr st1)" and nl: "\<not> isLastDigit st1"
    and byte: "byte = (256 * (digitsToDecode st1 - lo st1)) div (hi st1 - lo st1 + 1)"
  have nx: "dec_at (Suc n) t tb e b m s E D = Some (dec_byte b m s E st1 byte)"
    using assms(6) rd nl byte by simp
  have run': "dec_loop t tb e par b (m, s, E, D) (dec_byte b m s E st1 byte) = Some (bytes, out)"
    using dec_at_loop[OF nx, of par] assms(4) by simp
  from dec_loop_prefix[OF run'] obtain zs where "bytes = (yielded st1 @ [byte]) @ zs"
    by (auto simp: dec_byte_yielded)
  then have "byte \<in> set bytes" by simp
  then have byr: "0 \<le> byte" "byte \<le> 255" using assms(5) by simp_all
  note ri = read_digits_interval[OF rd]
  define sy where "sy = st1\<lparr>yielded := yielded st1 @ [byte]\<rparr>"
  have "boundary b m s (lo sy) (hi sy) p r" using bd ri by (simp add: sy_def)
  note dp = dec_points[OF assms(1-3) this byr]
  show "0 \<le> byte \<and> byte \<le> 255
        \<and> interval_inv (m * b) (narrow (st1\<lparr>yielded := yielded st1 @ [byte]\<rparr>) byte)
        \<and> (\<forall>k\<le>E. interval_inv (m * b)
              (dec_digits k b m s (narrow (st1\<lparr>yielded := yielded st1 @ [byte]\<rparr>) byte)))"
    using byr dp(2) dp(3) unfolding sy_def by simp
qed


section \<open>Claims\<close>

text \<open>
  C1 (round trip). For every alphabet of distinct symbols with between 2 and 256 symbols
  both constructors succeed, and for every finite sequence of bytes (integers from 0 to 255,
  the empty sequence included) \<open>encode\<close> returns a text on which \<open>decode\<close> terminates
  normally, having yielded exactly the sequence of bytes.
\<close>

theorem C1_round_trip:
  assumes "2 \<le> length alphabet" "length alphabet \<le> 256" "distinct alphabet"
    and "\<forall>byte\<in>set bytes. 0 \<le> byte \<and> byte \<le> 255"
  shows "\<exists>enc dec encodedText. new_Encoder alphabet = Inr enc \<and> new_Decoder alphabet = Inr dec
     \<and> encode enc bytes = Some (Inr encodedText)
     \<and> Decoder_decode dec encodedText = Some (bytes, Returned)"
proof -
  obtain enc where e: "new_Encoder alphabet = Inr enc"
    using assms(1,2) by (simp add: new_Encoder_def MIN_ALPHABET_SIZE_def MAX_ALPHABET_SIZE_def)
  obtain dec where d: "new_Decoder alphabet = Inr dec"
    using assms(1,2) by (simp add: new_Decoder_def MIN_ALPHABET_SIZE_def MAX_ALPHABET_SIZE_def)
  from round_trip[OF e d assms(3,4)] e d show ?thesis by blast
qed

text \<open>C1 at the decimal alphabet and the bytes 0, 255, 7, and at the empty sequence.\<close>

theorem C1_round_trip_witness:
  "(\<exists>enc dec encodedText. new_Encoder decimal_alphabet = Inr enc
       \<and> new_Decoder decimal_alphabet = Inr dec
       \<and> encode enc [0, 255, 7] = Some (Inr encodedText)
       \<and> Decoder_decode dec encodedText = Some ([0, 255, 7], Returned))
   \<and> (\<exists>enc dec encodedText. new_Encoder decimal_alphabet = Inr enc
       \<and> new_Decoder decimal_alphabet = Inr dec
       \<and> encode enc [] = Some (Inr encodedText)
       \<and> Decoder_decode dec encodedText = Some ([], Returned))"
  using C1_round_trip[of decimal_alphabet "[0, 255, 7]"] C1_round_trip[of decimal_alphabet "[]"]
  by (simp add: decimal_alphabet_units)

text \<open>
  C2 (whitespace tolerance). The claim: whitespace inserted before the terminator of a valid
  encoded text does not change the decoded bytes, and \<open>decode\<close> terminates. On the code it
  fails: with the decimal alphabet, the byte sequence \<open>[0]\<close> encodes to \<open>"0031"\<close>, which
  decodes to \<open>[0]\<close>; with one space put in front, \<open>decode\<close> never returns.
\<close>

theorem C2_whitespace_hangs:
  "new_Encoder decimal_alphabet = Inr \<lparr>encodingTable = decimal_alphabet\<rparr>
   \<and> new_Decoder decimal_alphabet = Inr \<lparr>decodingTable = decimal_table\<rparr>
   \<and> encode \<lparr>encodingTable = decimal_alphabet\<rparr> [0] = Some (Inr [48, 48, 51, 49])
   \<and> Decoder_decode \<lparr>decodingTable = decimal_table\<rparr> [48, 48, 51, 49] = Some ([0], Returned)
   \<and> isWhitespace 32
   \<and> Decoder_decode \<lparr>decodingTable = decimal_table\<rparr> [32, 48, 48, 51, 49] = None"
proof -
  have e: "encode \<lparr>encodingTable = decimal_alphabet\<rparr> [0] = Some (Inr [48, 48, 51, 49])"
    unfolding decimal_alphabet_units by code_simp
  have d: "Decoder_decode \<lparr>decodingTable = decimal_table\<rparr> [48, 48, 51, 49] = Some ([0], Returned)"
    unfolding decimal_table_def by code_simp
  have rd: "read_digits [32, 48, 48, 51, 49] decimal_table 4 10 100000000000 10000000000 12
          (dec_init 100000000000 10 12) = None"
    by (rule read_digits_whitespace_diverges)
       (simp_all add: dec_init_def decimal_table_get isWhitespace_def)
  have "dec_loop [32, 48, 48, 51, 49] decimal_table 4 1 10
          (100000000000, 10000000000, 4, 12) (dec_init 100000000000 10 12) = None"
    by (subst dec_loop.simps) (simp add: rd)
  then have "decode [32, 48, 48, 51, 49] decimal_table = None"
    by (simp add: decode_def Map_has_def decimal_table_get decimal_table_size calculateParams_10)
  then show ?thesis
    using e d decimal_new_Encoder decimal_new_Decoder
    by (simp add: Decoder_decode_def isWhitespace_def)
qed

text \<open>
  C3 (decoding table on duplicate symbols). The claim: a symbol that occurs at several indices
  of the alphabet is mapped to the index of its last occurrence. The constructor's loop runs
  from the last index down to 0 and \<open>set\<close> overwrites, so the entry that remains is the one
  written last, for the smallest index. For the alphabet \<open>"aba"\<close> the symbol \<open>a\<close> (code
  unit 97) occurs last at index 2 and the table maps it to 0.
\<close>

theorem C3_last_wins_counterexample:
  "new_Decoder [97, 98, 97] = Inr \<lparr>decodingTable = [(97, 0), (98, 1)]\<rparr>
   \<and> [97, 98, 97] ! 2 = (97::nat)
   \<and> Map_get [(97, 0), (98, 1)] 97 = Some 0
   \<and> Map_get [(97, 0), (98, 1)] 97 \<noteq> Some 2"
  by (simp add: new_Decoder_def MIN_ALPHABET_SIZE_def MAX_ALPHABET_SIZE_def numeral_3_eq_3)

text \<open>
  C3, amended: the decoding table maps every symbol of the alphabet to the index of its first
  occurrence, that is, \<open>alphabet[j]\<close> is mapped to \<open>j\<close> whenever no smaller index holds the
  same symbol.
\<close>

theorem C3_first_wins:
  assumes "new_Decoder alphabet = Inr dec" "j < length alphabet"
    "\<forall>k<j. alphabet ! k \<noteq> alphabet ! j"
  shows "Map_get (decodingTable dec) (alphabet ! j) = Some j"
proof -
  have "decodingTable dec = decodingTable_loop alphabet (length alphabet) []"
    using assms(1) by (auto simp: new_Decoder_def split: if_splits)
  then show ?thesis using assms(2,3) by (simp add: decodingTable_loop_first)
qed

text \<open>C3, amended, at the alphabet \<open>"aba"\<close> and index 0.\<close>

theorem C3_first_wins_witness:
  "new_Decoder [97, 98, 97] = Inr \<lparr>decodingTable = [(97, 0), (98, 1)]\<rparr>
   \<and> (0::nat) < length [97, 98, 97::nat]
   \<and> Map_get (decodingTable \<lparr>decodingTable = [(97, 0), (98, 1)]\<rparr>) ([97, 98, 97] ! 0) = Some 0"
proof -
  have d: "new_Decoder [97, 98, 97] = Inr \<lparr>decodingTable = [(97, 0), (98, 1)]\<rparr>"
    by (simp add: new_Decoder_def MIN_ALPHABET_SIZE_def MAX_ALPHABET_SIZE_def numeral_3_eq_3)
  from C3_first_wins[OF d, of 0] d show ?thesis by simp
qed

text \<open>
  C4 (\<open>maxDigitsToEmit\<close>). The claim: \<open>maxDigitsToEmit\<close> is the smallest \<open>k\<close> with
  \<open>base^k \<ge> 256\<close>. The counter of the second loop of \<open>calculateParams\<close> starts at 1, not 0,
  so the value is one more: for base 2 it is 9, although \<open>2^8 \<ge> 256\<close> already.
\<close>

theorem C4_maxDigitsToEmit_counterexample:
  "calculateParams 2 = Some (549755813888, 274877906944, 9, 40)
   \<and> (256::int) \<le> 2 ^ 8 \<and> (8::nat) < 9"
proof -
  have "calculateParams 2 = Some (549755813888, 274877906944, 9, 40)" by code_simp
  then show ?thesis by simp
qed

text \<open>
  C4, amended: for every base in \<open>[2, 256]\<close>, \<open>calculateParams\<close> returns, and
  \<open>maxDigitsToEmit - 1\<close> is the smallest \<open>k\<close> with \<open>base^k \<ge> 256\<close>; that is,
  \<open>maxDigitsToEmit\<close> is one more than that smallest exponent.
\<close>

theorem C4_maxDigitsToEmit:
  assumes "2 \<le> base" "base \<le> 256"
  shows "\<exists>msdDivisor secondMsdDivisor maxDigitsToEmit maxDigitsToDecode.
           calculateParams base
             = Some (msdDivisor, secondMsdDivisor, maxDigitsToEmit, maxDigitsToDecode)
           \<and> 1 \<le> maxDigitsToEmit
           \<and> 256 \<le> base ^ (maxDigitsToEmit - 1)
           \<and> (\<forall>k. k < maxDigitsToEmit - 1 \<longrightarrow> base ^ k < 256)"
proof -
  from calculateParams_Some[OF assms] obtain D E where p:
    "calculateParams base = Some (base ^ (D + 1), base ^ D, E + 2, D + 2)"
    "base ^ E < 256" "256 \<le> base ^ (E + 1)"
    by blast
  have "base ^ k < 256" if "k < E + 2 - 1" for k
  proof -
    have "k \<le> E" using that by simp
    then have "base ^ k \<le> base ^ E" using assms by (intro power_increasing) simp_all
    then show ?thesis using p(2) by simp
  qed
  then show ?thesis using p by (intro exI[of _ "base ^ (D + 1)"] exI[of _ "base ^ D"] exI[of _ "E + 2"] exI[of _ "D + 2"]) simp
qed

text \<open>C4, amended, at base 10.\<close>

theorem C4_maxDigitsToEmit_witness:
  "(2::int) \<le> 10 \<and> (10::int) \<le> 256
   \<and> (\<exists>msdDivisor secondMsdDivisor maxDigitsToEmit maxDigitsToDecode.
           calculateParams 10
             = Some (msdDivisor, secondMsdDivisor, maxDigitsToEmit, maxDigitsToDecode)
           \<and> 1 \<le> maxDigitsToEmit
           \<and> 256 \<le> (10::int) ^ (maxDigitsToEmit - 1)
           \<and> (\<forall>k. k < maxDigitsToEmit - 1 \<longrightarrow> (10::int) ^ k < 256))"
  using C4_maxDigitsToEmit[of 10] by simp

text \<open>
  C5 (alphabet bounds). Constructing an Encoder or a Decoder with an alphabet of fewer than 2 or
  more than 256 code units throws an \<open>Error\<close>: no object exists on which \<open>encode\<close> or
  \<open>decode\<close> could be called. With 2 to 256 code units, in particular with exactly 2 or
  exactly 256, both constructors succeed.
\<close>

theorem C5_alphabet_bounds:
  "(length alphabet < 2 \<or> 256 < length alphabet \<longrightarrow>
      (\<exists>msg. new_Encoder alphabet = Inl (Error msg)) \<and> (\<exists>msg. new_Decoder alphabet = Inl (Error msg)))
   \<and> (2 \<le> length alphabet \<and> length alphabet \<le> 256 \<longrightarrow>
      new_Encoder alphabet = Inr \<lparr>encodingTable = alphabet\<rparr>
      \<and> (\<exists>dec. new_Decoder alphabet = Inr dec))"
  by (simp add: new_Encoder_def new_Decoder_def MIN_ALPHABET_SIZE_def MAX_ALPHABET_SIZE_def)

text \<open>C5 at alphabets of length 1, 257, 2 and 256.\<close>

theorem C5_alphabet_bounds_witness:
  "((\<exists>msg. new_Encoder [48] = Inl (Error msg)) \<and> (\<exists>msg. new_Decoder [48] = Inl (Error msg)))
   \<and> ((\<exists>msg. new_Encoder (replicate 257 48) = Inl (Error msg))
      \<and> (\<exists>msg. new_Decoder (replicate 257 48) = Inl (Error msg)))
   \<and> (new_Encoder [48, 49] = Inr \<lparr>encodingTable = [48, 49]\<rparr> \<and> (\<exists>dec. new_Decoder [48, 49] = Inr dec))
   \<and> (new_Encoder [0..<256] = Inr \<lparr>encodingTable = [0..<256]\<rparr>
      \<and> (\<exists>dec. new_Decoder [0..<256] = Inr dec))"
  using C5_alphabet_bounds[of "[48]"] C5_alphabet_bounds[of "replicate 257 48"]
    C5_alphabet_bounds[of "[48, 49]"] C5_alphabet_bounds[of "[0..<256]"]
  by simp

text \<open>
  C6 (when \<open>decode\<close> throws). The claim: \<open>decode\<close> throws exactly when the text is empty,
  or its last symbol is not an alphabet symbol of value 0 or 1, or some earlier character is
  neither an alphabet symbol nor whitespace. On the code the last case fails when a whitespace
  character comes first: with the decimal alphabet, the text \<open>" !0"\<close> has a valid terminator
  \<open>0\<close> and the character \<open>!\<close>, which is neither a digit nor whitespace, but \<open>decode\<close>
  never reaches it and never throws: it repeats on the space before it for ever.
\<close>

theorem C6_invalid_character_after_whitespace_hangs:
  "new_Decoder decimal_alphabet = Inr \<lparr>decodingTable = decimal_table\<rparr>
   \<and> Map_get decimal_table ([32, 33, 48] ! 2) = Some 0
   \<and> Map_get decimal_table ([32, 33, 48] ! 1) = None \<and> \<not> isWhitespace ([32, 33, 48] ! 1)
   \<and> Decoder_decode \<lparr>decodingTable = decimal_table\<rparr> [32, 33, 48] = None"
proof -
  have rd: "read_digits [32, 33, 48] decimal_table 2 10 100000000000 10000000000 12
          (dec_init 100000000000 10 12) = None"
    by (rule read_digits_whitespace_diverges)
       (simp_all add: dec_init_def decimal_table_get isWhitespace_def)
  have "dec_loop [32, 33, 48] decimal_table 2 0 10
          (100000000000, 10000000000, 4, 12) (dec_init 100000000000 10 12) = None"
    by (subst dec_loop.simps) (simp add: rd)
  then have "decode [32, 33, 48] decimal_table = None"
    by (simp add: decode_def Map_has_def decimal_table_get decimal_table_size calculateParams_10)
  then show ?thesis
    using decimal_new_Decoder
    by (simp add: Decoder_decode_def isWhitespace_def decimal_table_get)
qed

text \<open>
  C7 (end of the encoded text). For every alphabet accepted by the constructor and every sequence
  of bytes in \<open>[0, 255]\<close>, \<open>encode\<close> returns the text built by the byte loop, followed by the
  symbol at index \<open>floor(hi / msdDivisor)\<close>, then one copy of the symbol at index 0 for each
  pending digit, then the symbol at index \<open>length(bytes) mod 2\<close>, which is therefore the last
  character.
\<close>

theorem C7_encode_ending:
  assumes "new_Encoder alphabet = Inr enc"
    and "\<forall>byte\<in>set bytes. 0 \<le> byte \<and> byte \<le> 255"
  shows "\<exists>msdDivisor secondMsdDivisor maxDigitsToEmit maxDigitsToDecode st text.
      calculateParams (int (length alphabet))
        = Some (msdDivisor, secondMsdDivisor, maxDigitsToEmit, maxDigitsToDecode)
      \<and> enc_bytes alphabet msdDivisor secondMsdDivisor maxDigitsToEmit bytes
           (enc_init msdDivisor (int (length alphabet))) = Inr st
      \<and> encode enc bytes = Some (Inr text)
      \<and> text = toString (result st) @ [alphabet ! nat (hi st div msdDivisor)]
           @ replicate (digitsToAdd st) (alphabet ! 0) @ [alphabet ! (length bytes mod 2)]
      \<and> last text = alphabet ! (length bytes mod 2)"
proof -
  note ne = new_Encoder_Inr[OF assms(1)]
  from calculateParams_Some[OF ne(2,3)] obtain m s E D where
    cp: "calculateParams (int (length alphabet)) = Some (m, s, E, D)" by blast
  obtain ds l h p r where pb: "pbytes E (int (length alphabet)) m s bytes 0
      (m * int (length alphabet) - 1) 0 0 = (ds, l, h, p, r)"
    by (metis prod_cases5)
  note ed = encode_digits[OF assms cp pb]
  from ed(1) obtain st where st: "enc_bytes alphabet m s E bytes (enc_init m (int (length alphabet))) = Inr st"
    "lo st = l" "hi st = h" "digitsToAdd st = p"
    "toString (result st) = map (\<lambda>d. alphabet ! nat d) ds" by blast
  define etext where "etext = toString (result st) @ [alphabet ! nat (hi st div m)]
      @ replicate (digitsToAdd st) (alphabet ! 0) @ [alphabet ! (length bytes mod 2)]"
  have "encode enc bytes = Some (Inr etext)"
    using ed(2) st(2-5) by (simp add: etext_def)
  moreover have "last etext = alphabet ! (length bytes mod 2)" by (simp add: etext_def)
  ultimately show ?thesis using cp st(1) etext_def by blast
qed

text \<open>C7 at the decimal alphabet and the bytes 0, 255.\<close>

theorem C7_encode_ending_witness:
  "new_Encoder decimal_alphabet = Inr \<lparr>encodingTable = decimal_alphabet\<rparr>
   \<and> (0::int) \<le> 0 \<and> (0::int) \<le> 255 \<and> (255::int) \<le> 255
   \<and> (\<exists>msdDivisor secondMsdDivisor maxDigitsToEmit maxDigitsToDecode st text.
      calculateParams (int (length decimal_alphabet))
        = Some (msdDivisor, secondMsdDivisor, maxDigitsToEmit, maxDigitsToDecode)
      \<and> enc_bytes decimal_alphabet msdDivisor secondMsdDivisor maxDigitsToEmit [0, 255]
           (enc_init msdDivisor (int (length decimal_alphabet))) = Inr st
      \<and> encode \<lparr>encodingTable = decimal_alphabet\<rparr> [0, 255] = Some (Inr text)
      \<and> text = toString (result st) @ [decimal_alphabet ! nat (hi st div msdDivisor)]
           @ replicate (digitsToAdd st) (decimal_alphabet ! 0)
           @ [decimal_alphabet ! (length [0, 255::int] mod 2)]
      \<and> last text = decimal_alphabet ! (length [0, 255::int] mod 2))"
  using C7_encode_ending[OF decimal_new_Encoder, of "[0, 255]"] decimal_new_Encoder by simp




text \<open>
  C9 (only alphabet symbols are written). For every alphabet accepted by the constructor and
  every sequence of bytes in \<open>[0, 255]\<close>, \<open>encode\<close> returns a text (no read of the encoding
  table is out of range, which would throw) and every character of it is a symbol of the
  alphabet.
\<close>

theorem C9_encode_symbols:
  assumes "new_Encoder alphabet = Inr enc"
    and "\<forall>byte\<in>set bytes. 0 \<le> byte \<and> byte \<le> 255"
  shows "\<exists>text. encode enc bytes = Some (Inr text) \<and> set text \<subseteq> set alphabet"
proof -
  note ne = new_Encoder_Inr[OF assms(1)]
  from calculateParams_Some[OF ne(2,3)] obtain m s E D where
    cp: "calculateParams (int (length alphabet)) = Some (m, s, E, D)" by blast
  obtain ds l h p r where pb: "pbytes E (int (length alphabet)) m s bytes 0
      (m * int (length alphabet) - 1) 0 0 = (ds, l, h, p, r)"
    by (metis prod_cases5)
  note ed = encode_digits[OF assms cp pb]
  note pf = params_facts[OF ne(2,3) cp]
  note m = pf(11)
  from ed(3) have bd: "0 \<le> l" "l \<le> h" "h < m * int (length alphabet)"
    by (simp_all add: boundary_def)
  have hm: "0 \<le> h div m" "h div m < int (length alphabet)"
    using msd_bounds[OF m _ bd(3)] bd by simp_all
  have "int (length bytes mod 2) < 2" by simp
  then have par: "int (length bytes mod 2) < int (length alphabet)" using ne(2) by linarith
  have "\<forall>d\<in>set (ds @ [h div m] @ replicate p 0 @ [int (length bytes mod 2)]).
      0 \<le> d \<and> d < int (length alphabet)"
    using ed(4) hm par ne(2) by auto
  then have "set (map (\<lambda>d. alphabet ! nat d)
      (ds @ [h div m] @ replicate p 0 @ [int (length bytes mod 2)])) \<subseteq> set alphabet"
    by (auto simp del: replicate_eq_replicate simp: nat_less_iff)
  then show ?thesis using ed(2) by blast
qed

text \<open>C9 at the decimal alphabet and the bytes 0, 255.\<close>

theorem C9_encode_symbols_witness:
  "new_Encoder decimal_alphabet = Inr \<lparr>encodingTable = decimal_alphabet\<rparr>
   \<and> (0::int) \<le> 0 \<and> (0::int) \<le> 255 \<and> (255::int) \<le> 255
   \<and> (\<exists>text. encode \<lparr>encodingTable = decimal_alphabet\<rparr> [0, 255] = Some (Inr text)
        \<and> set text \<subseteq> set decimal_alphabet)"
  using C9_encode_symbols[OF decimal_new_Encoder, of "[0, 255]"] decimal_new_Encoder by simp

text \<open>
  C10 (alphabet test before whitespace test). In the inner loop of \<open>decode\<close>, a character
  before the terminator that is both whitespace and a symbol of the alphabet is consumed as a
  data digit with its table value, not skipped: the loop goes on from the state in which the
  read position has advanced by one, one requested digit fewer is outstanding and the table
  value has entered \<open>digitsToDecode\<close> (after the leading digit when that one is kept, as the
  last digit otherwise); when it was the only requested digit, the loop returns that state.
\<close>

theorem C10_alphabet_before_whitespace:
  assumes "0 < requestedDigits st" "int (pos st) < endIndex"
    "isWhitespace (encodedText ! pos st)"
    "Map_get table (encodedText ! pos st) = Some digit"
  shows "read_digits encodedText table endIndex base msdDivisor secondMsdDivisor
           maxDigitsToDecode st
         = read_digits encodedText table endIndex base msdDivisor secondMsdDivisor
             maxDigitsToDecode (take_digit base msdDivisor secondMsdDivisor st (int digit))
         \<and> pos (take_digit base msdDivisor secondMsdDivisor st (int digit)) = pos st + 1
         \<and> requestedDigits (take_digit base msdDivisor secondMsdDivisor st (int digit))
             = requestedDigits st - 1
         \<and> digitsToDecode (take_digit base msdDivisor secondMsdDivisor st (int digit))
             = (if requestedDigits st = requestedDigitsKeepMsd st
                then digitsToDecode st div msdDivisor * msdDivisor
                       + js_rem (digitsToDecode st) secondMsdDivisor * base + int digit
                else js_rem (digitsToDecode st) msdDivisor * base + int digit)
         \<and> (requestedDigits st = 1 \<longrightarrow>
               read_digits encodedText table endIndex base msdDivisor secondMsdDivisor
                 maxDigitsToDecode st
               = Some (Inr (take_digit base msdDivisor secondMsdDivisor st (int digit))))"
proof -
  let ?st' = "take_digit base msdDivisor secondMsdDivisor st (int digit)"
  have step: "read_digits encodedText table endIndex base msdDivisor secondMsdDivisor
           maxDigitsToDecode st
         = read_digits encodedText table endIndex base msdDivisor secondMsdDivisor
             maxDigitsToDecode ?st'"
    using assms by (subst read_digits.simps) (simp add: Let_def)
  have f: "pos ?st' = pos st + 1" "requestedDigits ?st' = requestedDigits st - 1"
    by simp_all
  have d: "digitsToDecode ?st'
             = (if requestedDigits st = requestedDigitsKeepMsd st
                then digitsToDecode st div msdDivisor * msdDivisor
                       + js_rem (digitsToDecode st) secondMsdDivisor * base + int digit
                else js_rem (digitsToDecode st) msdDivisor * base + int digit)"
    by (simp add: take_digit_def Let_def)
  have r: "read_digits encodedText table endIndex base msdDivisor secondMsdDivisor
                 maxDigitsToDecode st = Some (Inr ?st')" if "requestedDigits st = 1"
  proof -
    have "requestedDigits ?st' = 0" using that by simp
    then have "read_digits encodedText table endIndex base msdDivisor secondMsdDivisor
             maxDigitsToDecode ?st' = Some (Inr ?st')"
      by (subst read_digits.simps) simp
    then show ?thesis using step by simp
  qed
  show ?thesis using step f d r by blast
qed

text \<open>
  C10 at the alphabet \<open>"0 "\<close>, in which the space has the value 1, and the text of two
  spaces: at the first state of \<open>decode\<close>, at that state with one requested digit, and the
  whole run, which yields the byte 128.
\<close>

theorem C10_alphabet_before_whitespace_witness:
  "isWhitespace ([32, 32] ! 0)
   \<and> new_Decoder [48, 32] = Inr \<lparr>decodingTable = [(32, 1), (48, 0)]\<rparr>
   \<and> Map_get [(32, 1), (48, 0)] ([32, 32] ! 0) = Some 1
   \<and> read_digits [32, 32] [(32, 1), (48, 0)] 1 2 549755813888 274877906944 40
        (dec_init 549755813888 2 40)
      = read_digits [32, 32] [(32, 1), (48, 0)] 1 2 549755813888 274877906944 40
          (take_digit 2 549755813888 274877906944 (dec_init 549755813888 2 40) 1)
   \<and> digitsToDecode (take_digit 2 549755813888 274877906944 (dec_init 549755813888 2 40) 1) = 1
   \<and> pos (take_digit 2 549755813888 274877906944 (dec_init 549755813888 2 40) 1) = 1
   \<and> requestedDigits (take_digit 2 549755813888 274877906944 (dec_init 549755813888 2 40) 1)
       = 39
   \<and> read_digits [32, 32] [(32, 1), (48, 0)] 1 2 549755813888 274877906944 40
        ((dec_init 549755813888 2 40)\<lparr>requestedDigits := 1\<rparr>)
      = Some (Inr \<lparr>lo = 0, hi = 1099511627775, bytesDecoded = 0, pos = 1, digitsToDecode = 1,
                   requestedDigits = 0, requestedDigitsKeepMsd = 0, isLastDigit = False,
                   yielded = []\<rparr>)
   \<and> Decoder_decode \<lparr>decodingTable = [(32, 1), (48, 0)]\<rparr> [32, 32] = Some ([128], Returned)"
proof -
  have n: "new_Decoder [48, 32] = Inr \<lparr>decodingTable = [(32, 1), (48, 0)]\<rparr>"
    by (simp add: new_Decoder_def MIN_ALPHABET_SIZE_def MAX_ALPHABET_SIZE_def numeral_2_eq_2)
  have g: "Map_get [(32, 1), (48, 0)] ([32, 32] ! 0) = Some 1" by simp
  have w: "isWhitespace ([32, 32] ! 0)" by (simp add: isWhitespace_def)
  have d: "Decoder_decode \<lparr>decodingTable = [(32, 1), (48, 0)]\<rparr> [32, 32] = Some ([128], Returned)"
    by code_simp
  note a = C10_alphabet_before_whitespace[of "dec_init 549755813888 2 40" 1 "[32, 32]" "[(32, 1), (48, 0)]" 1 2
      549755813888 274877906944 40]
  note b = C10_alphabet_before_whitespace[of "(dec_init 549755813888 2 40)\<lparr>requestedDigits := 1\<rparr>" 1 "[32, 32]"
      "[(32, 1), (48, 0)]" 1 2 549755813888 274877906944 40]
  have a': "read_digits [32, 32] [(32, 1), (48, 0)] 1 2 549755813888 274877906944 40
        (dec_init 549755813888 2 40)
      = read_digits [32, 32] [(32, 1), (48, 0)] 1 2 549755813888 274877906944 40
          (take_digit 2 549755813888 274877906944 (dec_init 549755813888 2 40) 1)
   \<and> digitsToDecode (take_digit 2 549755813888 274877906944 (dec_init 549755813888 2 40) 1) = 1
   \<and> pos (take_digit 2 549755813888 274877906944 (dec_init 549755813888 2 40) 1) = 1
   \<and> requestedDigits (take_digit 2 549755813888 274877906944 (dec_init 549755813888 2 40) 1)
       = 39"
    using a g w by (simp add: dec_init_def js_rem_def)
  have b': "read_digits [32, 32] [(32, 1), (48, 0)] 1 2 549755813888 274877906944 40
        ((dec_init 549755813888 2 40)\<lparr>requestedDigits := 1\<rparr>)
      = Some (Inr \<lparr>lo = 0, hi = 1099511627775, bytesDecoded = 0, pos = 1, digitsToDecode = 1,
                   requestedDigits = 0, requestedDigitsKeepMsd = 0, isLastDigit = False,
                   yielded = []\<rparr>)"
    using b g w by (auto simp add: dec_init_def take_digit_def js_rem_def)
  show ?thesis using n g w d a' b' by blast
qed

end
